theory Spec2Isabelle
  imports Main "HOL-Library.Sublist"
begin

section \<open>Data model\<close>

text \<open>
  A Python \<open>str\<close> is a list of code points, so that \<open>length\<close> is Python's \<open>len\<close>.
  An ASCII literal is written \<open>ascii ''...''\<close>; the Korean literals of the scripts are
  written as their code points.
\<close>

type_synonym pystr = "nat list"

definition ascii :: "string \<Rightarrow> pystr" where
  "ascii s = map of_char s"

text \<open>
  All datetimes of the scripts carry the one time zone object \<open>ZoneInfo("Asia/Seoul")\<close>, so
  Python compares and subtracts them on their wall-clock fields. A datetime is the number
  of microseconds on that wall clock, a date the number of whole days; \<open>date_of\<close> is
  \<open>datetime.date()\<close>. A \<open>timedelta\<close> is given by its days and hours. The clock reading
  is far from the ends of the range of \<open>datetime\<close>, so no subtraction overflows.
\<close>

type_synonym datetime = int
type_synonym date = int

definition timedelta :: "int \<Rightarrow> int \<Rightarrow> int" where
  "timedelta days hours = days * 86400000000 + hours * 3600000000"

definition date_of :: "datetime \<Rightarrow> date" where
  "date_of dt = dt div 86400000000"

text \<open>
  The parsed listing document, as far as \<open>parse_list_rows\<close> looks at it: the \<open>a\<close> elements
  in document order, each with its \<open>href\<close> attribute, its stripped text, and the stripped
  texts of all \<open>td\<close> elements below the nearest enclosing \<open>tr\<close> (\<open>None\<close> when the anchor
  stands in no table row).
\<close>

record anchor =
  a_href :: "pystr option"
  a_text :: pystr
  a_tr :: "pystr list option"

type_synonym soup = "anchor list"

record row =
  row_title :: pystr
  row_link :: pystr
  row_category :: pystr
  row_date_str :: pystr

text \<open>The dictionary appended to \<open>items\<close> (\<open>molit_bot.py\<close> has no \<open>summary\<close> key).\<close>

record item =
  item_dt :: datetime
  item_title :: pystr
  item_link :: pystr
  item_category :: pystr
  item_summary :: pystr

text \<open>
  What \<open>json.load\<close> returns. JSON numbers are integers here; floating point numbers are
  outside the model.
\<close>

datatype json =
  JNull
  | JBool bool
  | JInt int
  | JStr pystr
  | JArr "json list"
  | JObj "(pystr \<times> json) list"

datatype error =
  RequestException
  | ValueError
  | RuntimeError
  | KeyError
  | OSError
  | JSONDecodeError
  | AttributeError
  | TypeError

text \<open>The observable effects of a run, in the order they happen.\<close>

datatype event =
  GetList pystr int
  | GetDetail pystr
  | Post pystr
  | WriteCache "json list"

type_synonym 'a io = "event list \<times> (error + 'a)"

text \<open>
  Everything outside the two scripts: the environment variables, the web site, the
  Telegram endpoint, the cache file, and the library functions the scripts call
  (\<open>urljoin\<close>, \<open>strptime\<close>, \<open>re.search\<close>, \<open>strftime\<close>, BeautifulSoup's text extraction, the
  iteration order of a \<open>set\<close>). A response of \<open>None\<close> is a raised exception: for the
  site, a network error, a timeout or a status that \<open>raise_for_status\<close> rejects. A
  response is a function of the request: no listing page is requested twice in a run, and
  a detail page that two rows link to answers both requests alike. The pauses between
  requests (\<open>time.sleep\<close>) are not part of the model.
\<close>

record world =
  BOT_TOKEN :: "pystr option"
  CHAT_ID :: "pystr option"
  SUMMARY_CHARS :: int
  urljoin :: "pystr \<Rightarrow> pystr \<Rightarrow> pystr"
  list_response :: "pystr \<Rightarrow> int \<Rightarrow> soup option"
  detail_response :: "pystr \<Rightarrow> pystr option"
  post_response :: "pystr \<Rightarrow> bool"
  strptime_date :: "pystr \<Rightarrow> date option"
  re_search_detail :: "pystr \<Rightarrow> pystr option"
  strptime_datetime :: "pystr \<Rightarrow> datetime option"
  strftime :: "datetime \<Rightarrow> pystr"
  select_one_text :: "pystr \<Rightarrow> pystr \<Rightarrow> (pystr \<times> pystr) option"
  soup_text :: "pystr \<Rightarrow> pystr"
  re_sub_spaces :: "pystr \<Rightarrow> pystr"
  rstrip :: "pystr \<Rightarrow> pystr"
  cache_read :: "error + json"
  cache_writable :: bool
  set_iter :: "json list \<Rightarrow> json list"

section \<open>Constants of the scripts\<close>

definition BASE :: pystr where
  "BASE = ascii ''https://www.molit.go.kr''"

definition DETAIL_PATTERN_NOW :: pystr where
  "DETAIL_PATTERN_NOW = ascii ''USR/NEWS/m_71/dtl.jsp''"

definition DETAIL_PATTERN_OLD :: pystr where
  "DETAIL_PATTERN_OLD = ascii ''dtl.jsp?id=''"

definition CAT_HOUSING :: pystr where
  "CAT_HOUSING = [51452, 53469, 53664, 51648]"

definition CAT_LAND :: pystr where
  "CAT_LAND = [44397, 53664, 46020, 49884]"

definition CAT_GENERAL :: pystr where
  "CAT_GENERAL = [51068, 48152]"

definition CATEGORY_TO_SECTION :: "(pystr \<times> pystr) list" where
  "CATEGORY_TO_SECTION =
     [(CAT_HOUSING, ascii ''p_sec_2''), (CAT_LAND, ascii ''p_sec_9''), (CAT_GENERAL, ascii ''p_sec_1'')]"

definition MAX_CACHE :: nat where
  "MAX_CACHE = 300"

definition wanted :: "pystr list" where
  "wanted = [CAT_HOUSING, CAT_LAND, CAT_GENERAL]"

section \<open>Listing parser\<close>

text \<open>
  \<open>soup.select("a[href*='...']")\<close>: the anchors whose \<open>href\<close> contains the pattern, in
  document order. The pattern is \<open>DETAIL_PATTERN_NOW\<close> in \<open>molit_bot_now.py\<close> and
  \<open>DETAIL_PATTERN_OLD\<close> in \<open>molit_bot.py\<close>; the rest of \<open>parse_list_rows\<close> is the same in
  both files.
\<close>

definition select_href :: "pystr \<Rightarrow> soup \<Rightarrow> anchor list" where
  "select_href pat doc =
     filter (\<lambda>a. case a_href a of None \<Rightarrow> False | Some h \<Rightarrow> sublist pat h) doc"

text \<open>The body of the \<open>for a in ...\<close> loop; \<open>continue\<close> leaves \<open>rows\<close> as it is.\<close>

fun anchors_loop :: "world \<Rightarrow> anchor list \<Rightarrow> row list \<Rightarrow> row list" where
  "anchors_loop w [] rows = rows"
| "anchors_loop w (a # rest) rows =
     (let title = a_text a;
          link = (case a_href a of None \<Rightarrow> BASE | Some href \<Rightarrow> urljoin w BASE href)
      in case a_tr a of
           None \<Rightarrow> anchors_loop w rest rows
         | Some tds \<Rightarrow>
             (let category = (if length tds \<ge> 4 then tds ! (length tds - 3) else []);
                  date_str = (if length tds \<ge> 4 then tds ! (length tds - 2) else [])
              in anchors_loop w rest
                   (rows @ [\<lparr>row_title = title, row_link = link,
                             row_category = category, row_date_str = date_str\<rparr>])))"

definition parse_list_rows :: "world \<Rightarrow> pystr \<Rightarrow> soup \<Rightarrow> row list" where
  "parse_list_rows w pat doc = anchors_loop w (select_href pat doc) []"

section \<open>Detail resolver\<close>

text \<open>
  \<open>re_search_detail\<close> is group 1 of the regular expression search, \<open>strptime_datetime\<close> is
  \<open>datetime.strptime(_, "%Y-%m-%d %H:%M")\<close>, whose \<open>ValueError\<close> (a matched text such as
  \<open>2025-02-30 10:00\<close>) nothing in the scripts catches.
\<close>

definition parse_detail_datetime_kst :: "world \<Rightarrow> pystr \<Rightarrow> error + datetime option" where
  "parse_detail_datetime_kst w html =
     (case re_search_detail w html of
        None \<Rightarrow> Inr None
      | Some g \<Rightarrow>
          (case strptime_datetime w g of
             None \<Rightarrow> Inl ValueError
           | Some dt \<Rightarrow> Inr (Some dt)))"

definition candidates :: "pystr list" where
  "candidates = map ascii [''#viewCon'', ''.board_view'', ''.view'', ''.bo_view'', ''.bo_content'',
     ''.bo_text'', ''.bbsView'', ''.contents'', ''#contents'', ''#content'']"

text \<open>
  \<open>select_one_text w html sel\<close> is \<open>None\<close> when \<open>select_one\<close> finds no element, and
  otherwise the pair of \<open>el.get_text(strip=True)\<close> and
  \<open>el.get_text(separator=" ", strip=True)\<close>.
\<close>

fun candidates_loop :: "world \<Rightarrow> pystr \<Rightarrow> pystr list \<Rightarrow> pystr" where
  "candidates_loop w html [] = []"
| "candidates_loop w html (sel # sels) =
     (case select_one_text w html sel of
        None \<Rightarrow> candidates_loop w html sels
      | Some (stripped, spaced) \<Rightarrow>
          if stripped \<noteq> [] then spaced else candidates_loop w html sels)"

text \<open>Python's \<open>text[:limit]\<close>, also for a negative \<open>limit\<close>.\<close>

definition slice_to :: "pystr \<Rightarrow> int \<Rightarrow> pystr" where
  "slice_to s limit =
     (if limit \<ge> 0 then take (nat limit) s else take (nat (int (length s) + limit)) s)"

definition extract_summary :: "world \<Rightarrow> pystr \<Rightarrow> int \<Rightarrow> pystr" where
  "extract_summary w html limit =
     (let text0 = candidates_loop w html candidates;
          text1 = (if text0 = [] then soup_text w html else text0);
          text2 = re_sub_spaces w text1
      in if int (length text2) > limit then rstrip w (slice_to text2 limit) @ [8230] else text2)"

section \<open>Recency filter and pager\<close>

text \<open>
  The \<open>for row in rows\<close> loop of \<open>fetch_recent_for_section\<close>. The state is \<open>items\<close>,
  \<open>stop_paging\<close> and the trace of requests made so far. \<open>strptime_date\<close> is \<open>None\<close> where
  the \<open>try\<close> around \<open>strptime\<close> sets \<open>row_date = None\<close>; a date is never falsy. A request
  that raises is still a request made; \<open>parse_detail_datetime_kst\<close> raising ends the loop
  with the error.
\<close>

fun rows_loop ::
  "world \<Rightarrow> pystr \<Rightarrow> datetime \<Rightarrow> datetime \<Rightarrow> row list \<Rightarrow> item list \<Rightarrow> bool \<Rightarrow> event list
   \<Rightarrow> (item list \<times> bool) io" where
  "rows_loop w section_name since_kst now_kst [] items stop_paging tr =
     (tr, Inr (items, stop_paging))"
| "rows_loop w section_name since_kst now_kst (r # rest) items stop_paging tr =
     (let row_date = strptime_date w (row_date_str r) in
      if (case row_date of None \<Rightarrow> False | Some d \<Rightarrow> d < date_of (now_kst - timedelta 1 0))
      then rows_loop w section_name since_kst now_kst rest items True tr
      else
        (let tr1 = tr @ [GetDetail (row_link r)] in
         case detail_response w (row_link r) of
           None \<Rightarrow> rows_loop w section_name since_kst now_kst rest items stop_paging tr1
         | Some detail \<Rightarrow>
             (case parse_detail_datetime_kst w detail of
                Inl e \<Rightarrow> (tr1, Inl e)
              | Inr None \<Rightarrow> rows_loop w section_name since_kst now_kst rest items stop_paging tr1
              | Inr (Some dt_kst) \<Rightarrow>
                  if since_kst \<le> dt_kst \<and> dt_kst \<le> now_kst
                  then rows_loop w section_name since_kst now_kst rest
                         (items @ [\<lparr>item_dt = dt_kst, item_title = row_title r,
                                    item_link = row_link r, item_category = section_name,
                                    item_summary = extract_summary w detail (SUMMARY_CHARS w)\<rparr>])
                         stop_paging tr1
                  else rows_loop w section_name since_kst now_kst rest items stop_paging tr1)))"

text \<open>
  The \<open>for page in range(1, max_pages + 1)\<close> loop, over the pages still to come.
  \<open>get_soup\<close> raising is caught nowhere. The pattern of \<open>parse_list_rows\<close> is a parameter,
  since it is the one difference between the two files here.
\<close>

fun pages_loop ::
  "world \<Rightarrow> pystr \<Rightarrow> pystr \<Rightarrow> pystr \<Rightarrow> datetime \<Rightarrow> datetime \<Rightarrow> int list \<Rightarrow> item list
   \<Rightarrow> event list \<Rightarrow> (item list) io" where
  "pages_loop w pat section_code section_name since_kst now_kst [] items tr = (tr, Inr items)"
| "pages_loop w pat section_code section_name since_kst now_kst (page # later) items tr =
     (let tr1 = tr @ [GetList section_code page] in
      case list_response w section_code page of
        None \<Rightarrow> (tr1, Inl RequestException)
      | Some doc \<Rightarrow>
          (let rows = parse_list_rows w pat doc in
           if rows = [] then (tr1, Inr items)
           else
             (case rows_loop w section_name since_kst now_kst rows items False tr1 of
                (tr2, Inl e) \<Rightarrow> (tr2, Inl e)
              | (tr2, Inr (items2, stop_paging)) \<Rightarrow>
                  if stop_paging then (tr2, Inr items2)
                  else pages_loop w pat section_code section_name since_kst now_kst later
                         items2 tr2)))"

text \<open>
  \<open>fetch_recent_for_section\<close> returns the requests it made together with its items or
  the exception that left it.
\<close>

definition fetch_recent_for_section ::
  "world \<Rightarrow> pystr \<Rightarrow> pystr \<Rightarrow> pystr \<Rightarrow> datetime \<Rightarrow> datetime \<Rightarrow> int \<Rightarrow> (item list) io" where
  "fetch_recent_for_section w pat section_code section_name since_kst now_kst max_pages =
     pages_loop w pat section_code section_name since_kst now_kst [1..max_pages] [] []"

section \<open>Dedup store\<close>

text \<open>
  A Python \<open>set\<close> of hashable JSON values is the list of its members in the order they
  were first added. Python's equality makes \<open>True\<close> and \<open>1\<close> (and \<open>False\<close> and \<open>0\<close>) one
  member; a string equals only itself. The order in which Python iterates over a set is
  that of its hash table, not of insertion: \<open>set_iter\<close> of the world.
\<close>

type_synonym pyset = "json list"

definition py_key :: "json \<Rightarrow> json" where
  "py_key v = (case v of JBool b \<Rightarrow> JInt (if b then 1 else 0) | _ \<Rightarrow> v)"

definition set_contains :: "json \<Rightarrow> pyset \<Rightarrow> bool" where
  "set_contains x s = (py_key x \<in> py_key ` set s)"

definition set_add :: "json \<Rightarrow> pyset \<Rightarrow> pyset" where
  "set_add x s = (if set_contains x s then s else s @ [x])"

definition hashable :: "json \<Rightarrow> bool" where
  "hashable v = (case v of JArr _ \<Rightarrow> False | JObj _ \<Rightarrow> False | _ \<Rightarrow> True)"

text \<open>\<open>set(iterable)\<close>: adding a list or a dictionary raises \<open>TypeError\<close>.\<close>

fun set_of_list :: "json list \<Rightarrow> pyset \<Rightarrow> error + pyset" where
  "set_of_list [] s = Inr s"
| "set_of_list (x # xs) s =
     (if hashable x then set_of_list xs (set_add x s) else Inl TypeError)"

text \<open>
  What \<open>set(v)\<close> does by the type of \<open>v\<close>: a list gives its elements, a string its
  characters, a dictionary its keys, anything else is not iterable.
\<close>

definition py_set :: "json \<Rightarrow> error + pyset" where
  "py_set v =
     (case v of
        JArr xs \<Rightarrow> set_of_list xs []
      | JStr s \<Rightarrow> set_of_list (map (\<lambda>c. JStr [c]) s) []
      | JObj kvs \<Rightarrow> set_of_list (map (\<lambda>kv. JStr (fst kv)) kvs) []
      | _ \<Rightarrow> Inl TypeError)"

text \<open>\<open>data.get(key, default)\<close>: only a dictionary has the method.\<close>

definition dict_get :: "json \<Rightarrow> pystr \<Rightarrow> json \<Rightarrow> error + json" where
  "dict_get data k dflt =
     (case data of
        JObj kvs \<Rightarrow> (case map_of kvs k of None \<Rightarrow> Inr dflt | Some v \<Rightarrow> Inr v)
      | _ \<Rightarrow> Inl AttributeError)"

text \<open>
  The \<open>try\<close> block of \<open>load_cache\<close>: \<open>cache_read\<close> is \<open>open\<close> followed by \<open>json.load\<close>
  (\<open>OSError\<close> for a missing or unreadable file, \<open>JSONDecodeError\<close> for malformed JSON).
\<close>

definition load_cache_try :: "world \<Rightarrow> error + pyset" where
  "load_cache_try w =
     (case cache_read w of
        Inl e \<Rightarrow> Inl e
      | Inr data \<Rightarrow>
          (case dict_get data (ascii ''links'') (JArr []) of
             Inl e \<Rightarrow> Inl e
           | Inr v \<Rightarrow> py_set v))"

definition load_cache :: "world \<Rightarrow> pyset" where
  "load_cache w = (case load_cache_try w of Inl e \<Rightarrow> [] | Inr s \<Rightarrow> s)"

text \<open>
  \<open>save_cache\<close>: \<open>list(links_set)\<close> is the set in its iteration order, \<open>links[-MAX_CACHE:]\<close>
  the last \<open>MAX_CACHE\<close> of that list. A write that fails is swallowed and leaves no event.
\<close>

definition save_cache_links :: "world \<Rightarrow> pyset \<Rightarrow> json list" where
  "save_cache_links w links_set =
     (let links = set_iter w links_set
      in if length links > MAX_CACHE then drop (length links - MAX_CACHE) links else links)"

definition save_cache :: "world \<Rightarrow> pyset \<Rightarrow> event list" where
  "save_cache w links_set =
     (if cache_writable w then [WriteCache (save_cache_links w links_set)] else [])"

section \<open>Delivery\<close>

definition falsy :: "pystr option \<Rightarrow> bool" where
  "falsy v = (v = None \<or> v = Some [])"

text \<open>
  \<open>send\<close> of \<open>molit_bot_now.py\<close>: \<open>post_response\<close> is false when \<open>requests.post\<close> or
  \<open>raise_for_status\<close> raises.
\<close>

definition send :: "world \<Rightarrow> pystr \<Rightarrow> unit io" where
  "send w text =
     (if falsy (BOT_TOKEN w) \<or> falsy (CHAT_ID w) then ([], Inl RuntimeError)
      else if post_response w text then ([Post text], Inr ())
      else ([Post text], Inl RequestException))"

section \<open>Digest builder\<close>

definition HEADER_PREFIX :: pystr where
  "HEADER_PREFIX = [44397, 53664, 44368, 53685, 48512, 32, 48372, 46020, 51088, 47308, 32, 40,
     51648, 45212, 32, 50, 52, 49884, 44036, 44, 32, 51452, 53469, 53664, 51648, 183, 44397,
     53664, 46020, 49884, 183, 51068, 48152, 41, 10, 44592, 51456, 58, 32]"

definition NO_NEW_SUFFIX :: pystr where
  "NO_NEW_SUFFIX = [10, 10, 49888, 44508, 32, 48372, 46020, 51088, 47308, 44032, 32, 50630,
     49845, 45768, 45796, 46, 32, 40, 51473, 48373, 32, 51228, 50808, 41]"

definition header :: "world \<Rightarrow> datetime \<Rightarrow> pystr" where
  "header w now_kst = HEADER_PREFIX @ strftime w now_kst @ ascii '' KST''"

definition no_new_message :: "world \<Rightarrow> datetime \<Rightarrow> pystr" where
  "no_new_message w now_kst = HEADER_PREFIX @ strftime w now_kst @ ascii '' KST'' @ NO_NEW_SUFFIX"

definition category_line :: "pystr \<Rightarrow> pystr" where
  "category_line c = ascii ''['' @ c @ ascii '']''"

definition item_block :: "world \<Rightarrow> item \<Rightarrow> pystr" where
  "item_block w it =
     [8226, 32] @ item_title it
     @ [10, 32, 32, 45, 32, 46321, 47197, 58, 32] @ strftime w (item_dt it)
     @ [10, 32, 32, 45, 32, 50836, 50557, 58, 32] @ item_summary it
     @ [10, 32, 32, 45, 32, 47553, 53356, 58, 32] @ item_link it"

text \<open>The \<open>for it in new_items\<close> loop that builds \<open>lines\<close>.\<close>

fun lines_loop :: "world \<Rightarrow> item list \<Rightarrow> pystr option \<Rightarrow> pystr list \<Rightarrow> pystr list" where
  "lines_loop w [] last_cat lines = lines"
| "lines_loop w (it # rest) last_cat lines =
     (if Some (item_category it) \<noteq> last_cat
      then lines_loop w rest (Some (item_category it))
             (lines @ [category_line (item_category it)] @ [item_block w it])
      else lines_loop w rest last_cat (lines @ [item_block w it]))"

text \<open>\<open>"\n".join(chunk)\<close>.\<close>

fun join_nl :: "pystr list \<Rightarrow> pystr" where
  "join_nl [] = []"
| "join_nl [x] = x"
| "join_nl (x # y # ys) = x @ [10] @ join_nl (y # ys)"

text \<open>
  The chunking loop of \<open>molit_bot_now.py\<close>, which sends each chunk as it closes it. The
  state is \<open>chunk\<close>, \<open>buf\<close> and the trace.
\<close>

fun send_loop :: "world \<Rightarrow> pystr list \<Rightarrow> pystr list \<Rightarrow> nat \<Rightarrow> event list
   \<Rightarrow> (pystr list \<times> nat) io" where
  "send_loop w [] chunk buf tr = (tr, Inr (chunk, buf))"
| "send_loop w (line # rest) chunk buf tr =
     (if buf + length line + 1 > 3500
      then (case send w (join_nl chunk) of
              (evs, Inl e) \<Rightarrow> (tr @ evs, Inl e)
            | (evs, Inr u) \<Rightarrow> send_loop w rest [line] (length line + 1) (tr @ evs))
      else send_loop w rest (chunk @ [line]) (buf + length line + 1) tr)"

text \<open>
  The chunking loop of \<open>molit_bot.py\<close>, which collects the joined chunks and sends them
  afterwards. The state is \<open>chunks\<close>, \<open>cur\<close> and \<open>buf\<close>.
\<close>

fun chunks_loop :: "pystr list \<Rightarrow> pystr list \<Rightarrow> pystr list \<Rightarrow> nat \<Rightarrow> pystr list" where
  "chunks_loop [] chunks cur buf = (if cur \<noteq> [] then chunks @ [join_nl cur] else chunks)"
| "chunks_loop (line # rest) chunks cur buf =
     (if buf + length line + 1 > 3500
      then chunks_loop rest (chunks @ [join_nl cur]) [line] (length line + 1)
      else chunks_loop rest chunks (cur @ [line]) (buf + length line + 1))"

definition chunk_texts :: "pystr list \<Rightarrow> pystr list" where
  "chunk_texts lines = chunks_loop lines [] [] 0"

section \<open>The run\<close>

text \<open>The \<open>for name in wanted\<close> loop of \<open>main\<close>; \<open>max_pages\<close> keeps its default 3.\<close>

fun wanted_loop :: "world \<Rightarrow> pystr \<Rightarrow> datetime \<Rightarrow> datetime \<Rightarrow> pystr list \<Rightarrow> item list
   \<Rightarrow> event list \<Rightarrow> (item list) io" where
  "wanted_loop w pat since_kst now_kst [] all_items tr = (tr, Inr all_items)"
| "wanted_loop w pat since_kst now_kst (name # names) all_items tr =
     (case map_of CATEGORY_TO_SECTION name of
        None \<Rightarrow> (tr, Inl KeyError)
      | Some code \<Rightarrow>
          (case fetch_recent_for_section w pat code name since_kst now_kst 3 of
             (evs, Inl e) \<Rightarrow> (tr @ evs, Inl e)
           | (evs, Inr items) \<Rightarrow>
               wanted_loop w pat since_kst now_kst names (all_items @ items) (tr @ evs)))"

text \<open>The digest lines of the items that are new, newest first (Python's sort is stable).\<close>

definition digest_lines :: "world \<Rightarrow> datetime \<Rightarrow> item list \<Rightarrow> pystr list" where
  "digest_lines w now_kst sorted_items = lines_loop w sorted_items None [header w now_kst, []]"

text \<open>
  The chunking of \<open>main\<close> in \<open>molit_bot_now.py\<close>: the loop, then \<open>if chunk: send(...)\<close>.
\<close>

definition send_chunks :: "world \<Rightarrow> pystr list \<Rightarrow> event list \<Rightarrow> unit io" where
  "send_chunks w lines tr =
     (case send_loop w lines [] 0 tr of
        (tr1, Inl e) \<Rightarrow> (tr1, Inl e)
      | (tr1, Inr (chunk, buf)) \<Rightarrow>
          (if chunk \<noteq> [] then (case send w (join_nl chunk) of (evs, r) \<Rightarrow> (tr1 @ evs, r))
           else (tr1, Inr ())))"

text \<open>
  \<open>main\<close> of \<open>molit_bot_now.py\<close>; \<open>now_kst\<close> is the reading of the clock. The list is
  sorted in place, so the loop that adds the links to \<open>sent\<close> runs over the sorted list.
\<close>

definition main :: "world \<Rightarrow> datetime \<Rightarrow> unit io" where
  "main w now_kst =
     (let since_kst = now_kst - timedelta 0 24 in
      case wanted_loop w DETAIL_PATTERN_NOW since_kst now_kst wanted [] [] of
        (tr, Inl e) \<Rightarrow> (tr, Inl e)
      | (tr, Inr all_items) \<Rightarrow>
          (let sent = load_cache w;
               new_items = filter (\<lambda>it. \<not> set_contains (JStr (item_link it)) sent) all_items
           in if new_items = []
              then (case send w (no_new_message w now_kst) of (evs, r) \<Rightarrow> (tr @ evs, r))
              else
                (let sorted_items = sort_key (\<lambda>it. - item_dt it) new_items;
                     lines = digest_lines w now_kst sorted_items
                 in case send_chunks w lines tr of
                      (tr1, Inl e) \<Rightarrow> (tr1, Inl e)
                    | (tr1, Inr u) \<Rightarrow>
                        (let sent2 = fold (\<lambda>it s. set_add (JStr (item_link it)) s)
                                       sorted_items sent
                         in (tr1 @ save_cache w sent2, Inr ())))))"

text \<open>The texts posted and the listing pages requested in a trace.\<close>

fun posts :: "event list \<Rightarrow> pystr list" where
  "posts [] = []"
| "posts (Post t # tr) = t # posts tr"
| "posts (e # tr) = posts tr"

fun list_pages :: "event list \<Rightarrow> (pystr \<times> int) list" where
  "list_pages [] = []"
| "list_pages (GetList c p # tr) = (c, p) # list_pages tr"
| "list_pages (e # tr) = list_pages tr"

fun cache_writes :: "event list \<Rightarrow> json list list" where
  "cache_writes [] = []"
| "cache_writes (WriteCache ls # tr) = ls # cache_writes tr"
| "cache_writes (e # tr) = cache_writes tr"

section \<open>Notions used in the statements\<close>

text \<open>
  The coarse-date test of the row loop: the row's date parses and is strictly earlier than
  the calendar date of \<open>now_kst - timedelta(days=1)\<close>. Such a row is skipped and raises
  the stop signal.
\<close>

definition row_too_old :: "world \<Rightarrow> datetime \<Rightarrow> row \<Rightarrow> bool" where
  "row_too_old w now_kst r =
     (case strptime_date w (row_date_str r) of
        None \<Rightarrow> False
      | Some d \<Rightarrow> d < date_of (now_kst - timedelta 1 0))"

text \<open>
  What one row that passes the coarse-date test contributes: the exception of
  \<open>parse_detail_datetime_kst\<close>, or the items to append (none or one).
\<close>

definition row_items :: "world \<Rightarrow> pystr \<Rightarrow> datetime \<Rightarrow> datetime \<Rightarrow> row \<Rightarrow> error + item list" where
  "row_items w section_name since_kst now_kst r =
     (case detail_response w (row_link r) of
        None \<Rightarrow> Inr []
      | Some detail \<Rightarrow>
          (case parse_detail_datetime_kst w detail of
             Inl e \<Rightarrow> Inl e
           | Inr None \<Rightarrow> Inr []
           | Inr (Some dt) \<Rightarrow>
               if since_kst \<le> dt \<and> dt \<le> now_kst
               then Inr [\<lparr>item_dt = dt, item_title = row_title r, item_link = row_link r,
                          item_category = section_name,
                          item_summary = extract_summary w detail (SUMMARY_CHARS w)\<rparr>]
               else Inr []))"

text \<open>The rows of a listing page, and whether the pager goes on after that page.\<close>

definition page_rows :: "world \<Rightarrow> pystr \<Rightarrow> pystr \<Rightarrow> int \<Rightarrow> row list" where
  "page_rows w pat code p =
     (case list_response w code p of None \<Rightarrow> [] | Some doc \<Rightarrow> parse_list_rows w pat doc)"

definition page_continues :: "world \<Rightarrow> pystr \<Rightarrow> pystr \<Rightarrow> datetime \<Rightarrow> int \<Rightarrow> bool" where
  "page_continues w pat code now_kst p =
     (page_rows w pat code p \<noteq> [] \<and> \<not> list_ex (row_too_old w now_kst) (page_rows w pat code p))"

text \<open>
  A trace all of whose listing requests were answered, and a trace that ends in a listing
  request that failed.
\<close>

definition listed_ok :: "world \<Rightarrow> event list \<Rightarrow> bool" where
  "listed_ok w tr = list_all (\<lambda>(c, p). list_response w c p \<noteq> None) (list_pages tr)"

definition failed_at :: "world \<Rightarrow> event list \<Rightarrow> bool" where
  "failed_at w tr =
     (tr \<noteq> [] \<and> listed_ok w (butlast tr)
      \<and> (case last tr of GetList c p \<Rightarrow> list_response w c p = None | _ \<Rightarrow> False))"

text \<open>
  A chunk, as the list of its lines, respects the budget: its joined text has at most 3500
  characters unless it is one line longer than that, and a line longer than the budget
  shares its chunk with no other line.
\<close>

definition within_budget :: "pystr list \<Rightarrow> bool" where
  "within_budget g =
     ((length (join_nl g) \<le> 3500 \<or> (length g = 1 \<and> 3500 < length (hd g)))
      \<and> (list_ex (\<lambda>l. 3500 < length l) g \<longrightarrow> length g = 1))"

text \<open>The invariant of both chunking loops.\<close>

definition chunk_inv :: "pystr list \<Rightarrow> nat \<Rightarrow> bool" where
  "chunk_inv cur buf =
     (buf = sum_list (map (\<lambda>l. Suc (length l)) cur)
      \<and> (buf \<le> 3500 \<or> length cur = 1))"

text \<open>The parts of \<open>main\<close>: collecting, removing what was sent, sorting.\<close>

abbreviation collect :: "world \<Rightarrow> datetime \<Rightarrow> (item list) io" where
  "collect w now_kst \<equiv>
     wanted_loop w DETAIL_PATTERN_NOW (now_kst - timedelta 0 24) now_kst wanted [] []"

abbreviation new_items :: "world \<Rightarrow> item list \<Rightarrow> item list" where
  "new_items w all_items \<equiv>
     filter (\<lambda>it. \<not> set_contains (JStr (item_link it)) (load_cache w)) all_items"

abbreviation sorted_new :: "world \<Rightarrow> item list \<Rightarrow> item list" where
  "sorted_new w all_items \<equiv> sort_key (\<lambda>it. - item_dt it) (new_items w all_items)"

text \<open>
  The row of an anchor in the words of the specification, for an anchor that stands in a
  table row: the category label is the third-from-last cell and the coarse date the
  second-from-last cell of a row with at least four cells, and both are empty otherwise.
  An anchor outside any table row has no row.
\<close>

definition row_of :: "world \<Rightarrow> anchor \<Rightarrow> row option" where
  "row_of w a =
     (case a_tr a of
        None \<Rightarrow> None
      | Some tds \<Rightarrow>
          Some \<lparr>row_title = a_text a,
                row_link = (case a_href a of None \<Rightarrow> BASE | Some href \<Rightarrow> urljoin w BASE href),
                row_category = (if 4 \<le> length tds then rev tds ! 2 else []),
                row_date_str = (if 4 \<le> length tds then rev tds ! 1 else [])\<rparr>)"

section \<open>Example runs\<close>

text \<open>
  A site on 2025-08-12 at 15:00 KST. The tables of \<open>strptime\<close> and \<open>strftime\<close> hold the
  dates and times that occur; a date is its day number, a time the microseconds since day
  0. The detail page of a press release is the label of the regular expression, a space
  and the registration time.
\<close>

definition REG_LABEL :: pystr where
  "REG_LABEL = [46321, 47197, 51068]"

definition clock_table :: "(pystr \<times> datetime) list" where
  "clock_table =
     [(ascii ''2025-08-12 15:00'', 63890694000000000),
      (ascii ''2025-08-12 11:00'', 63890679600000000),
      (ascii ''2025-08-12 16:00'', 63890697600000000),
      (ascii ''2025-08-11 15:00'', 63890607600000000),
      (ascii ''2025-08-11 14:59'', 63890607540000000)]"

definition detail_page :: "string \<Rightarrow> pystr" where
  "detail_page d = REG_LABEL @ [32] @ ascii d"

definition base_world :: world where
  "base_world =
     \<lparr>BOT_TOKEN = Some (ascii ''123:abc''), CHAT_ID = Some (ascii ''@molit''), SUMMARY_CHARS = 220,
      urljoin = (\<lambda>b h. b @ h),
      list_response = (\<lambda>c p. Some []),
      detail_response = (\<lambda>l. None),
      post_response = (\<lambda>t. True),
      strptime_date = map_of [(ascii ''2025-08-12'', 739475), (ascii ''2025-08-11'', 739474),
                              (ascii ''2025-08-10'', 739473)],
      re_search_detail = (\<lambda>html. if take 4 html = REG_LABEL @ [32] then Some (drop 4 html) else None),
      strptime_datetime = map_of clock_table,
      strftime = (\<lambda>dt. case find (\<lambda>(s, t). t = dt) clock_table of
                            None \<Rightarrow> [] | Some (s, t) \<Rightarrow> s),
      select_one_text = (\<lambda>html sel. None),
      soup_text = (\<lambda>html. html),
      re_sub_spaces = (\<lambda>s. s),
      rstrip = (\<lambda>s. s),
      cache_read = Inl OSError,
      cache_writable = True,
      set_iter = (\<lambda>s. s)\<rparr>"

definition href_no :: "string \<Rightarrow> pystr" where
  "href_no i = ascii ''/USR/NEWS/m_71/dtl.jsp?id='' @ ascii i"

definition link_no :: "string \<Rightarrow> pystr" where
  "link_no i = BASE @ href_no i"

definition listing_anchor :: "string \<Rightarrow> pystr list \<Rightarrow> anchor" where
  "listing_anchor i tds = \<lparr>a_href = Some (href_no i), a_text = ascii i, a_tr = Some tds\<rparr>"

definition cells :: "string \<Rightarrow> pystr list" where
  "cells d = [ascii ''1'', ascii ''title'', ascii ''cat'', ascii d, ascii ''7'']"

definition page_a :: soup where
  "page_a =
     [listing_anchor ''1'' (cells ''2025-08-12''),
      listing_anchor ''2'' (cells ''2025-08-12''),
      listing_anchor ''3'' (cells ''2025-08-10''),
      \<lparr>a_href = Some (href_no ''6''), a_text = ascii ''6'', a_tr = None\<rparr>,
      listing_anchor ''4'' [ascii ''title''],
      listing_anchor ''5'' (cells ''2025-08-11''),
      \<lparr>a_href = Some (ascii ''/about.jsp''), a_text = ascii ''about'', a_tr = None\<rparr>]"

definition page_b :: soup where
  "page_b = [listing_anchor ''7'' (cells ''2025-08-12'')]"

definition page_c :: soup where
  "page_c = [listing_anchor ''8'' (cells ''2025-08-12'')]"

definition world_a :: world where
  "world_a = base_world
     \<lparr>list_response := (\<lambda>c p.
        if c = ascii ''p_sec_2'' \<and> p = 1 then Some page_a
        else if c = ascii ''p_sec_2'' \<and> p = 2 then Some page_c
        else if c = ascii ''p_sec_1'' \<and> p = 1 then Some page_b
        else Some []),
      detail_response := map_of
        [(link_no ''1'', detail_page ''2025-08-12 11:00''),
         (link_no ''2'', detail_page ''2025-08-12 16:00''),
         (link_no ''4'', detail_page ''2025-08-11 15:00''),
         (link_no ''5'', detail_page ''2025-08-11 14:59''),
         (link_no ''7'', detail_page ''2025-08-12 11:00''),
         (link_no ''8'', detail_page ''2025-08-12 11:00'')]\<rparr>"

definition now_a :: datetime where
  "now_a = 63890694000000000"

definition item_no :: "string \<Rightarrow> pystr \<Rightarrow> string \<Rightarrow> datetime \<Rightarrow> item" where
  "item_no i cat d dt =
     \<lparr>item_dt = dt, item_title = ascii i, item_link = link_no i, item_category = cat,
      item_summary = detail_page d\<rparr>"

definition trace_a :: "event list" where
  "trace_a = [GetList (ascii ''p_sec_2'') 1, GetDetail (link_no ''1''), GetDetail (link_no ''2''),
     GetDetail (link_no ''4''), GetDetail (link_no ''5'')]"

definition item1 :: item where
  "item1 = item_no ''1'' CAT_HOUSING ''2025-08-12 11:00'' 63890679600000000"

definition item4 :: item where
  "item4 = item_no ''4'' CAT_HOUSING ''2025-08-11 15:00'' 63890607600000000"

definition item7 :: item where
  "item7 = item_no ''7'' CAT_GENERAL ''2025-08-12 11:00'' 63890679600000000"

definition world_b :: world where
  "world_b = world_a
     \<lparr>list_response := (\<lambda>c p. if c = ascii ''p_sec_9'' then None else list_response world_a c p)\<rparr>"

definition world_e :: world where
  "world_e = world_a \<lparr>list_response := (\<lambda>c p. Some page_b)\<rparr>"

definition world_c :: world where
  "world_c = world_a \<lparr>BOT_TOKEN := None\<rparr>"

definition world_d :: world where
  "world_d = world_a
     \<lparr>cache_read := Inr (JObj [(ascii ''links'', JArr [JStr (link_no ''1'')])])\<rparr>"

text \<open>
  Links numbered by one character, and a world whose sets iterate in the reverse of the
  insertion order.
\<close>

definition numbered_link :: "nat \<Rightarrow> json" where
  "numbered_link n = JStr (BASE @ ascii ''/USR/NEWS/m_71/dtl.jsp?id='' @ [48 + n])"

definition world_rev :: world where
  "world_rev = base_world \<lparr>set_iter := rev\<rparr>"

text \<open>Five lines for the chunking loops, the fourth longer than the budget.\<close>

definition lines_x :: "pystr list" where
  "lines_x = [replicate 1000 97, replicate 1000 98, replicate 2000 99, replicate 4000 100,
              replicate 10 101]"

text \<open>A world whose cache file reads as given, and row 4 of the example page.\<close>

definition world_of_cache :: "error + json \<Rightarrow> world" where
  "world_of_cache r = base_world \<lparr>cache_read := r\<rparr>"

definition row4 :: row where
  "row4 = \<lparr>row_title = ascii ''4'', row_link = link_no ''4'', row_category = [], row_date_str = []\<rparr>"

section \<open>Proof support\<close>

subsection \<open>Traces\<close>

lemma list_pages_append [simp]: "list_pages (xs @ ys) = list_pages xs @ list_pages ys"
  by (induction xs rule: list_pages.induct) auto

lemma posts_append [simp]: "posts (xs @ ys) = posts xs @ posts ys"
  by (induction xs rule: posts.induct) auto

lemma cache_writes_append [simp]: "cache_writes (xs @ ys) = cache_writes xs @ cache_writes ys"
  by (induction xs rule: cache_writes.induct) auto

lemma posts_map_Post [simp]: "posts (map Post ts) = ts"
  by (induction ts) auto

lemma list_pages_map_Post [simp]: "list_pages (map Post ts) = []"
  by (induction ts) auto

lemma cache_writes_map_Post [simp]: "cache_writes (map Post ts) = []"
  by (induction ts) auto

subsection \<open>The row loop\<close>

lemma rows_loop_old:
  "row_too_old w now r \<Longrightarrow>
   rows_loop w n s now (r # rest) items stop tr = rows_loop w n s now rest items True tr"
  by (auto simp: row_too_old_def Let_def split: option.splits)

lemma rows_loop_fresh:
  "\<not> row_too_old w now r \<Longrightarrow>
   rows_loop w n s now (r # rest) items stop tr =
     (case row_items w n s now r of
        Inl e \<Rightarrow> (tr @ [GetDetail (row_link r)], Inl e)
      | Inr new \<Rightarrow> rows_loop w n s now rest (items @ new) stop (tr @ [GetDetail (row_link r)]))"
  by (simp add: row_too_old_def row_items_def Let_def split: option.splits sum.splits)

declare rows_loop.simps(2) [simp del]

lemma rows_loop_Cons_cases:
  obtains
    (old) "row_too_old w now r"
      "rows_loop w n s now (r # rest) items stop tr = rows_loop w n s now rest items True tr"
  | (raise) e where "\<not> row_too_old w now r" "row_items w n s now r = Inl e"
      "rows_loop w n s now (r # rest) items stop tr = (tr @ [GetDetail (row_link r)], Inl e)"
  | (fresh) new where "\<not> row_too_old w now r" "row_items w n s now r = Inr new"
      "rows_loop w n s now (r # rest) items stop tr
         = rows_loop w n s now rest (items @ new) stop (tr @ [GetDetail (row_link r)])"
proof (cases "row_too_old w now r")
  case True
  then show ?thesis using old rows_loop_old by blast
next
  case False
  show ?thesis
  proof (cases "row_items w n s now r")
    case (Inl e)
    then show ?thesis using raise[of e] False by (simp add: rows_loop_fresh)
  next
    case (Inr new)
    then show ?thesis using fresh[of new] False by (simp add: rows_loop_fresh)
  qed
qed

lemma row_items_window:
  "row_items w n s now r = Inr new \<Longrightarrow> list_all (\<lambda>it. s \<le> item_dt it \<and> item_dt it \<le> now) new"
  by (auto simp: row_items_def split: option.splits sum.splits if_splits)

text \<open>What the loop over one page does, when no exception leaves it.\<close>

lemma rows_loop_result:
  "rows_loop w n s now rows items stop tr = (tr', Inr (items', stop')) \<Longrightarrow>
   tr' = tr @ map (\<lambda>r. GetDetail (row_link r)) (filter (\<lambda>r. \<not> row_too_old w now r) rows)
   \<and> items' = items @ concat (map (\<lambda>r. case row_items w n s now r of Inl e \<Rightarrow> [] | Inr new \<Rightarrow> new)
                               (filter (\<lambda>r. \<not> row_too_old w now r) rows))
   \<and> stop' = (stop \<or> list_ex (row_too_old w now) rows)"
proof (induction rows arbitrary: items stop tr)
  case Nil
  then show ?case by simp
next
  case (Cons r rest)
  show ?case
  proof (cases rule: rows_loop_Cons_cases[of w now r n s rest items stop tr])
    case old
    with Cons.IH[of items True tr] Cons.prems show ?thesis by simp
  next
    case (raise e)
    with Cons.prems show ?thesis by simp
  next
    case (fresh new)
    with Cons.IH[of "items @ new" stop "tr @ [GetDetail (row_link r)]"] Cons.prems
    show ?thesis by simp
  qed
qed

lemma rows_loop_window:
  "rows_loop w n s now rows items stop tr = (tr', Inr (items', stop')) \<Longrightarrow>
   list_all (\<lambda>it. s \<le> item_dt it \<and> item_dt it \<le> now) items \<Longrightarrow>
   list_all (\<lambda>it. s \<le> item_dt it \<and> item_dt it \<le> now) items'"
proof (induction rows arbitrary: items stop tr)
  case Nil
  then show ?case by simp
next
  case (Cons r rest)
  show ?case
  proof (cases rule: rows_loop_Cons_cases[of w now r n s rest items stop tr])
    case old
    with Cons.IH[of items True tr] Cons.prems show ?thesis by simp
  next
    case (raise e)
    with Cons.prems show ?thesis by simp
  next
    case (fresh new)
    with Cons.IH[of "items @ new" stop "tr @ [GetDetail (row_link r)]"] Cons.prems
      row_items_window[of w n s now r new]
    show ?thesis by simp
  qed
qed

text \<open>The loop makes detail requests only, also when an exception leaves it.\<close>

lemma rows_loop_events:
  "rows_loop w n s now rows items stop tr = (tr', res) \<Longrightarrow>
   \<exists>links. tr' = tr @ map GetDetail links"
proof (induction rows arbitrary: items stop tr)
  case Nil
  then show ?case by (auto intro: exI[of _ "[]"])
next
  case (Cons r rest)
  show ?case
  proof (cases rule: rows_loop_Cons_cases[of w now r n s rest items stop tr])
    case old
    with Cons.IH[of items True tr] Cons.prems show ?thesis by simp
  next
    case (raise e)
    with Cons.prems show ?thesis by (auto intro: exI[of _ "[row_link r]"])
  next
    case (fresh new)
    with Cons.IH[of "items @ new" stop "tr @ [GetDetail (row_link r)]"] Cons.prems
    obtain links where "tr' = (tr @ [GetDetail (row_link r)]) @ map GetDetail links" by auto
    then show ?thesis by (intro exI[of _ "row_link r # links"]) simp
  qed
qed

lemma list_pages_map_GetDetail [simp]: "list_pages (map GetDetail ls) = []"
  by (induction ls) auto

lemma posts_map_GetDetail [simp]: "posts (map GetDetail ls) = []"
  by (induction ls) auto

lemma cache_writes_map_GetDetail [simp]: "cache_writes (map GetDetail ls) = []"
  by (induction ls) auto

subsection \<open>The page loop\<close>

lemma pages_loop_Cons_cases:
  obtains
    (fail) "list_response w c p = None"
      "pages_loop w pat c n s now (p # later) items tr = (tr @ [GetList c p], Inl RequestException)"
  | (empty) doc where "list_response w c p = Some doc" "parse_list_rows w pat doc = []"
      "pages_loop w pat c n s now (p # later) items tr = (tr @ [GetList c p], Inr items)"
  | (raise) doc links e where "list_response w c p = Some doc" "parse_list_rows w pat doc \<noteq> []"
      "rows_loop w n s now (parse_list_rows w pat doc) items False (tr @ [GetList c p])
         = (tr @ [GetList c p] @ map GetDetail links, Inl e)"
      "pages_loop w pat c n s now (p # later) items tr
         = (tr @ [GetList c p] @ map GetDetail links, Inl e)"
  | (stop) doc links items2 where "list_response w c p = Some doc" "parse_list_rows w pat doc \<noteq> []"
      "rows_loop w n s now (parse_list_rows w pat doc) items False (tr @ [GetList c p])
         = (tr @ [GetList c p] @ map GetDetail links, Inr (items2, True))"
      "pages_loop w pat c n s now (p # later) items tr
         = (tr @ [GetList c p] @ map GetDetail links, Inr items2)"
  | (continue) doc links items2 where "list_response w c p = Some doc"
      "parse_list_rows w pat doc \<noteq> []"
      "rows_loop w n s now (parse_list_rows w pat doc) items False (tr @ [GetList c p])
         = (tr @ [GetList c p] @ map GetDetail links, Inr (items2, False))"
      "pages_loop w pat c n s now (p # later) items tr
         = pages_loop w pat c n s now later items2 (tr @ [GetList c p] @ map GetDetail links)"
proof (cases "list_response w c p")
  case None
  then show ?thesis using fail by simp
next
  case (Some doc)
  show ?thesis
  proof (cases "parse_list_rows w pat doc = []")
    case True
    then show ?thesis using empty[of doc] Some by simp
  next
    case False
    obtain tr2 r2 where
      rl: "rows_loop w n s now (parse_list_rows w pat doc) items False (tr @ [GetList c p]) = (tr2, r2)"
      by (cases "rows_loop w n s now (parse_list_rows w pat doc) items False (tr @ [GetList c p])")
    from rows_loop_events[OF rl] obtain links where
      tr2: "tr2 = tr @ [GetList c p] @ map GetDetail links" by auto
    show ?thesis
    proof (cases r2)
      case (Inl e)
      then show ?thesis using raise[of doc links e] Some False rl tr2 by simp
    next
      case (Inr pr)
      obtain items2 stop2 where pr: "pr = (items2, stop2)" by (cases pr)
      show ?thesis
      proof (cases stop2)
        case True
        then show ?thesis using stop[of doc links items2] Some False rl tr2 Inr pr by simp
      next
        case f: False
        then show ?thesis using continue[of doc links items2] Some False rl tr2 Inr pr by simp
      qed
    qed
  qed
qed

declare pages_loop.simps(2) [simp del]

lemma pages_loop_window:
  "pages_loop w pat c n s now ps items tr = (tr', Inr items') \<Longrightarrow>
   list_all (\<lambda>it. s \<le> item_dt it \<and> item_dt it \<le> now) items \<Longrightarrow>
   list_all (\<lambda>it. s \<le> item_dt it \<and> item_dt it \<le> now) items'"
proof (induction ps arbitrary: items tr)
  case Nil
  then show ?case by simp
next
  case (Cons p later)
  show ?case
  proof (cases rule: pages_loop_Cons_cases[of w c p pat n s now later items tr])
    case fail
    with Cons.prems show ?thesis by simp
  next
    case (empty doc)
    with Cons.prems show ?thesis by simp
  next
    case (raise doc links e)
    with Cons.prems show ?thesis by simp
  next
    case (stop doc links items2)
    with Cons.prems rows_loop_window[OF stop(3)] show ?thesis by simp
  next
    case (continue doc links items2)
    with Cons.prems rows_loop_window[OF continue(3)] Cons.IH[of items2] show ?thesis by simp
  qed
qed

lemma pages_loop_quiet:
  "pages_loop w pat c n s now ps items tr = (tr', res) \<Longrightarrow>
   posts tr' = posts tr \<and> cache_writes tr' = cache_writes tr"
proof (induction ps arbitrary: items tr)
  case Nil
  then show ?case by auto
next
  case (Cons p later)
  show ?case
  proof (cases rule: pages_loop_Cons_cases[of w c p pat n s now later items tr])
    case fail
    with Cons.prems show ?thesis by auto
  next
    case (empty doc)
    with Cons.prems show ?thesis by auto
  next
    case (raise doc links e)
    with Cons.prems show ?thesis by auto
  next
    case (stop doc links items2)
    with Cons.prems show ?thesis by auto
  next
    case (continue doc links items2)
    with Cons.prems Cons.IH[of items2 "tr @ [GetList c p] @ map GetDetail links"]
    show ?thesis by simp
  qed
qed

lemma pages_loop_pages:
  "pages_loop w pat c n s now ps items tr = (tr', res) \<Longrightarrow>
   \<exists>k \<le> length ps. list_pages tr' = list_pages tr @ map (Pair c) (take k ps)
      \<and> list_all (page_continues w pat c now) (butlast (take k ps))"
proof (induction ps arbitrary: items tr)
  case Nil
  then show ?case by simp
next
  case (Cons p later)
  have one: "list_pages tr' = list_pages tr @ [(c, p)] \<Longrightarrow> ?case"
    by (intro exI[of _ 1]) simp
  show ?case
  proof (cases rule: pages_loop_Cons_cases[of w c p pat n s now later items tr])
    case fail
    with Cons.prems one show ?thesis by auto
  next
    case (empty doc)
    with Cons.prems one show ?thesis by auto
  next
    case (raise doc links e)
    with Cons.prems one show ?thesis by auto
  next
    case (stop doc links items2)
    with Cons.prems one show ?thesis by auto
  next
    case (continue doc links items2)
    with Cons.prems have
      "pages_loop w pat c n s now later items2 (tr @ [GetList c p] @ map GetDetail links) = (tr', res)"
      by simp
    from Cons.IH[OF this] obtain k where k: "k \<le> length later"
      "list_pages tr' = list_pages tr @ [(c, p)] @ map (Pair c) (take k later)"
      "list_all (page_continues w pat c now) (butlast (take k later))" by auto
    have "\<not> list_ex (row_too_old w now) (parse_list_rows w pat doc)"
      using rows_loop_result[OF continue(3)] by simp
    then have pc: "page_continues w pat c now p"
      using continue(1,2) by (simp add: page_continues_def page_rows_def)
    have "list_all (page_continues w pat c now) (butlast (take (Suc k) (p # later)))"
      using k(3) pc by simp
    moreover have "list_pages tr' = list_pages tr @ map (Pair c) (take (Suc k) (p # later))"
      using k(2) by simp
    ultimately show ?thesis using k(1) by (intro exI[of _ "Suc k"]) simp
  qed
qed

lemma take_upto: "k \<le> length [1..m] \<Longrightarrow> take k [1..m] = [1..int k]"
proof (induction k)
  case 0
  then show ?case by simp
next
  case (Suc k)
  then have "take (Suc k) [1..m] = take k [1..m] @ [[1..m] ! k]"
    by (simp add: take_Suc_conv_app_nth)
  also have "\<dots> = [1..int k] @ [1 + int k]" using Suc by simp
  also have "\<dots> = [1..int (Suc k)]" by (simp add: upto_rec2 add.commute)
  finally show ?case .
qed

lemma butlast_upto: "0 \<le> k \<Longrightarrow> butlast [1..k] = [1..k - 1]"
  by (cases "k = 0") (simp_all add: upto_rec2)

lemma listed_ok_append [simp]: "listed_ok w (xs @ ys) = (listed_ok w xs \<and> listed_ok w ys)"
  by (simp add: listed_ok_def)

lemma listed_ok_GetList [simp]:
  "listed_ok w (GetList c p # tr) = (list_response w c p \<noteq> None \<and> listed_ok w tr)"
  by (simp add: listed_ok_def)

lemma listed_ok_GetDetail [simp]: "listed_ok w (map GetDetail ls)"
  by (simp add: listed_ok_def)

lemma listed_ok_Nil [simp]: "listed_ok w []"
  by (simp add: listed_ok_def)

lemma failed_at_iff:
  "failed_at w tr =
     (\<exists>pre c p. tr = pre @ [GetList c p] \<and> list_response w c p = None \<and> listed_ok w pre)"
proof
  assume f: "failed_at w tr"
  then have ne: "tr \<noteq> []" and ok: "listed_ok w (butlast tr)" by (simp_all add: failed_at_def)
  from f obtain c p where l: "last tr = GetList c p" "list_response w c p = None"
    by (auto simp: failed_at_def split: event.splits)
  have "tr = butlast tr @ [GetList c p]" using ne l(1) by (metis append_butlast_last_id)
  with l(2) ok show "\<exists>pre c p. tr = pre @ [GetList c p] \<and> list_response w c p = None \<and> listed_ok w pre"
    by blast
next
  assume "\<exists>pre c p. tr = pre @ [GetList c p] \<and> list_response w c p = None \<and> listed_ok w pre"
  then show "failed_at w tr" by (auto simp: failed_at_def)
qed

lemma pages_loop_fail:
  "pages_loop w pat c n s now ps items tr = (tr', res) \<Longrightarrow> listed_ok w tr \<Longrightarrow>
   listed_ok w tr' \<or> (failed_at w tr' \<and> res = Inl RequestException)"
proof (induction ps arbitrary: items tr)
  case Nil
  then show ?case by auto
next
  case (Cons p later)
  show ?case
  proof (cases rule: pages_loop_Cons_cases[of w c p pat n s now later items tr])
    case fail
    with Cons.prems have "failed_at w tr'" "res = Inl RequestException"
      by (auto simp: failed_at_iff)
    then show ?thesis by simp
  next
    case (empty doc)
    with Cons.prems show ?thesis by auto
  next
    case (raise doc links e)
    with Cons.prems show ?thesis by auto
  next
    case (stop doc links items2)
    with Cons.prems show ?thesis by auto
  next
    case (continue doc links items2)
    with Cons.prems Cons.IH[of items2 "tr @ [GetList c p] @ map GetDetail links"]
    show ?thesis by simp
  qed
qed

subsection \<open>The loop over the categories\<close>

lemma wanted_loop_Cons_cases:
  obtains
    (nokey) "map_of CATEGORY_TO_SECTION name = None"
      "wanted_loop w pat s now (name # names) all_items tr = (tr, Inl KeyError)"
  | (raise) code evs e where "map_of CATEGORY_TO_SECTION name = Some code"
      "fetch_recent_for_section w pat code name s now 3 = (evs, Inl e)"
      "wanted_loop w pat s now (name # names) all_items tr = (tr @ evs, Inl e)"
  | (ok) code evs items where "map_of CATEGORY_TO_SECTION name = Some code"
      "fetch_recent_for_section w pat code name s now 3 = (evs, Inr items)"
      "wanted_loop w pat s now (name # names) all_items tr
         = wanted_loop w pat s now names (all_items @ items) (tr @ evs)"
proof (cases "map_of CATEGORY_TO_SECTION name")
  case None
  then show ?thesis using nokey by simp
next
  case (Some code)
  obtain evs r where f: "fetch_recent_for_section w pat code name s now 3 = (evs, r)"
    by (cases "fetch_recent_for_section w pat code name s now 3")
  show ?thesis
  proof (cases r)
    case (Inl e)
    then show ?thesis using raise[of code evs e] Some f by simp
  next
    case (Inr items)
    then show ?thesis using ok[of code evs items] Some f by simp
  qed
qed

declare wanted_loop.simps(2) [simp del]

lemma fetch_window:
  "fetch_recent_for_section w pat code name s now m = (tr, Inr items) \<Longrightarrow>
   list_all (\<lambda>it. s \<le> item_dt it \<and> item_dt it \<le> now) items"
  unfolding fetch_recent_for_section_def using pages_loop_window by fastforce

lemma fetch_quiet:
  "fetch_recent_for_section w pat code name s now m = (tr, res) \<Longrightarrow>
   posts tr = [] \<and> cache_writes tr = []"
  unfolding fetch_recent_for_section_def using pages_loop_quiet by fastforce

lemma fetch_fail:
  "fetch_recent_for_section w pat code name s now m = (tr, res) \<Longrightarrow>
   listed_ok w tr \<or> (failed_at w tr \<and> res = Inl RequestException)"
  unfolding fetch_recent_for_section_def using pages_loop_fail[of w pat code name s now _ "[]" "[]"]
  by simp

lemma failed_at_prepend: "listed_ok w tr \<Longrightarrow> failed_at w evs \<Longrightarrow> failed_at w (tr @ evs)"
  unfolding failed_at_iff
  by (metis append.assoc listed_ok_append)

lemma wanted_loop_window:
  "wanted_loop w pat s now names all_items tr = (tr', Inr all') \<Longrightarrow>
   list_all (\<lambda>it. s \<le> item_dt it \<and> item_dt it \<le> now) all_items \<Longrightarrow>
   list_all (\<lambda>it. s \<le> item_dt it \<and> item_dt it \<le> now) all'"
proof (induction names arbitrary: all_items tr)
  case Nil
  then show ?case by simp
next
  case (Cons name names)
  show ?case
  proof (cases rule: wanted_loop_Cons_cases[of name w pat s now names all_items tr])
    case nokey
    with Cons.prems show ?thesis by simp
  next
    case (raise code evs e)
    with Cons.prems show ?thesis by simp
  next
    case (ok code evs items)
    with Cons.prems Cons.IH[of "all_items @ items" "tr @ evs"] fetch_window[OF ok(2)]
    show ?thesis by simp
  qed
qed

lemma wanted_loop_quiet:
  "wanted_loop w pat s now names all_items tr = (tr', res) \<Longrightarrow>
   posts tr' = posts tr \<and> cache_writes tr' = cache_writes tr"
proof (induction names arbitrary: all_items tr)
  case Nil
  then show ?case by auto
next
  case (Cons name names)
  show ?case
  proof (cases rule: wanted_loop_Cons_cases[of name w pat s now names all_items tr])
    case nokey
    with Cons.prems show ?thesis by auto
  next
    case (raise code evs e)
    with Cons.prems fetch_quiet[OF raise(2)] show ?thesis by auto
  next
    case (ok code evs items)
    with Cons.prems Cons.IH[of "all_items @ items" "tr @ evs"] fetch_quiet[OF ok(2)]
    show ?thesis by simp
  qed
qed

lemma wanted_loop_fail:
  "wanted_loop w pat s now names all_items tr = (tr', res) \<Longrightarrow> listed_ok w tr \<Longrightarrow>
   listed_ok w tr' \<or> (failed_at w tr' \<and> res = Inl RequestException)"
proof (induction names arbitrary: all_items tr)
  case Nil
  then show ?case by auto
next
  case (Cons name names)
  show ?case
  proof (cases rule: wanted_loop_Cons_cases[of name w pat s now names all_items tr])
    case nokey
    with Cons.prems show ?thesis by auto
  next
    case (raise code evs e)
    with Cons.prems fetch_fail[OF raise(2)] show ?thesis
      by (auto intro: failed_at_prepend)
  next
    case (ok code evs items)
    from fetch_fail[OF ok(2)] have "listed_ok w evs" by auto
    with ok Cons.prems Cons.IH[of "all_items @ items" "tr @ evs"]
    show ?thesis by simp
  qed
qed

subsection \<open>Chunking and sending\<close>

lemma length_join_nl:
  "g \<noteq> [] \<Longrightarrow> Suc (length (join_nl g)) = sum_list (map (\<lambda>l. Suc (length l)) g)"
  by (induction g rule: join_nl.induct) auto

lemma within_budget_iff:
  "within_budget g =
     ((length (join_nl g) \<le> 3500 \<or> (\<exists>l. g = [l] \<and> 3500 < length l))
      \<and> (\<forall>l \<in> set g. 3500 < length l \<longrightarrow> g = [l]))"
  by (cases g rule: join_nl.cases) (auto simp: within_budget_def list_ex_iff)

lemma chunk_inv_iff:
  "chunk_inv cur buf =
     (buf = sum_list (map (\<lambda>l. Suc (length l)) cur) \<and> (buf \<le> 3500 \<or> (\<exists>l. cur = [l])))"
  by (cases cur rule: join_nl.cases) (auto simp: chunk_inv_def)

lemma chunk_inv_within: "chunk_inv cur buf \<Longrightarrow> within_budget cur"
proof (cases "cur = []")
  case True
  then show ?thesis by (simp add: within_budget_iff)
next
  case False
  assume inv: "chunk_inv cur buf"
  have len: "Suc (length (join_nl cur)) = buf"
    using inv False by (simp add: chunk_inv_iff length_join_nl)
  show ?thesis
  proof (cases "buf \<le> 3500")
    case True
    have "\<forall>l \<in> set cur. Suc (length l) \<le> buf"
      using inv by (auto simp: chunk_inv_iff intro: member_le_sum_list)
    with True len show ?thesis by (fastforce simp: within_budget_iff)
  next
    case f: False
    with inv obtain l where "cur = [l]" by (auto simp: chunk_inv_iff)
    with f len show ?thesis by (auto simp: within_budget_iff)
  qed
qed

lemma chunk_inv_start [simp]: "chunk_inv [] 0"
  by (simp add: chunk_inv_iff)

lemma chunk_inv_single [simp]: "chunk_inv [l] (Suc (length l))"
  by (simp add: chunk_inv_iff)

lemma chunk_inv_step:
  "chunk_inv cur buf \<Longrightarrow> \<not> 3500 < buf + length line + 1 \<Longrightarrow>
   chunk_inv (cur @ [line]) (buf + length line + 1)"
  by (auto simp: chunk_inv_iff)

lemma chunks_loop_groups:
  "chunk_inv cur buf \<Longrightarrow>
   \<exists>groups. chunks_loop lines chunks cur buf = chunks @ map join_nl groups
      \<and> concat groups = cur @ lines \<and> list_all within_budget groups"
proof (induction lines arbitrary: chunks cur buf)
  case Nil
  show ?case
  proof (cases "cur = []")
    case True
    then show ?thesis by (intro exI[of _ "[]"]) simp
  next
    case False
    then show ?thesis using chunk_inv_within[OF Nil] by (intro exI[of _ "[cur]"]) simp
  qed
next
  case (Cons line rest)
  show ?case
  proof (cases "3500 < buf + length line + 1")
    case True
    from Cons.IH[of "[line]" "Suc (length line)" "chunks @ [join_nl cur]"]
    obtain groups where g: "chunks_loop rest (chunks @ [join_nl cur]) [line] (length line + 1)
        = (chunks @ [join_nl cur]) @ map join_nl groups"
      "concat groups = [line] @ rest" "list_all within_budget groups" by auto
    show ?thesis using True g chunk_inv_within[OF Cons.prems]
      by (intro exI[of _ "cur # groups"]) simp
  next
    case False
    from Cons.IH[OF chunk_inv_step[OF Cons.prems False], of chunks]
    obtain groups where "chunks_loop rest chunks (cur @ [line]) (buf + length line + 1)
        = chunks @ map join_nl groups"
      "concat groups = (cur @ [line]) @ rest" "list_all within_budget groups" by auto
    then show ?thesis using False by (intro exI[of _ groups]) simp
  qed
qed

lemma chunk_texts_groups:
  "\<exists>groups. chunk_texts lines = map join_nl groups \<and> concat groups = lines
     \<and> list_all within_budget groups"
  using chunks_loop_groups[of "[]" 0 lines "[]"] by (simp add: chunk_texts_def)

lemma chunks_loop_acc: "chunks_loop lines chunks cur buf = chunks @ chunks_loop lines [] cur buf"
proof (induction lines arbitrary: chunks cur buf)
  case Nil
  then show ?case by simp
next
  case (Cons line rest)
  show ?case
    using Cons[of "chunks @ [join_nl cur]" "[line]"] Cons[of "[join_nl cur]" "[line]"]
      Cons[of chunks "cur @ [line]"]
    by simp
qed

lemma send_cases:
  obtains
    (config) "falsy (BOT_TOKEN w) \<or> falsy (CHAT_ID w)" "send w t = ([], Inl RuntimeError)"
  | (ok) "\<not> falsy (BOT_TOKEN w)" "\<not> falsy (CHAT_ID w)" "post_response w t"
      "send w t = ([Post t], Inr ())"
  | (fail) "\<not> falsy (BOT_TOKEN w)" "\<not> falsy (CHAT_ID w)" "\<not> post_response w t"
      "send w t = ([Post t], Inl RequestException)"
  by (cases "falsy (BOT_TOKEN w) \<or> falsy (CHAT_ID w)"; cases "post_response w t")
     (auto simp: send_def)

text \<open>
  The posts of the sending loop are a prefix of the chunks of the collecting loop, and
  all of them when the loop ends without an exception.
\<close>

lemma send_loop_posts:
  "send_loop w lines chunk buf tr = (tr', res) \<Longrightarrow>
   \<exists>texts. tr' = tr @ map Post texts \<and>
     (case res of
        Inl e \<Rightarrow> prefix texts (chunks_loop lines [] chunk buf)
      | Inr (chunk', buf') \<Rightarrow>
          chunks_loop lines [] chunk buf = texts @ (if chunk' \<noteq> [] then [join_nl chunk'] else []))"
proof (induction lines arbitrary: chunk buf tr)
  case Nil
  then show ?case by (intro exI[of _ "[]"]) auto
next
  case (Cons line rest)
  show ?case
  proof (cases "3500 < buf + length line + 1")
    case False
    with Cons.prems have "send_loop w rest (chunk @ [line]) (buf + length line + 1) tr = (tr', res)"
      by simp
    from Cons.IH[OF this] False show ?thesis by (auto split: sum.splits)
  next
    case True
    have cl: "chunks_loop (line # rest) [] chunk buf
        = join_nl chunk # chunks_loop rest [] [line] (length line + 1)"
      using True chunks_loop_acc[of rest "[join_nl chunk]"] by simp
    show ?thesis
    proof (cases rule: send_cases[of w "join_nl chunk"])
      case config
      with True Cons.prems show ?thesis by (intro exI[of _ "[]"]) auto
    next
      case fail
      with True Cons.prems cl show ?thesis by (intro exI[of _ "[join_nl chunk]"]) auto
    next
      case ok
      with True Cons.prems
      have "send_loop w rest [line] (length line + 1) (tr @ [Post (join_nl chunk)]) = (tr', res)"
        by simp
      from Cons.IH[OF this] obtain texts where t:
        "tr' = (tr @ [Post (join_nl chunk)]) @ map Post texts"
        "case res of
           Inl e \<Rightarrow> prefix texts (chunks_loop rest [] [line] (length line + 1))
         | Inr (chunk', buf') \<Rightarrow>
             chunks_loop rest [] [line] (length line + 1)
               = texts @ (if chunk' \<noteq> [] then [join_nl chunk'] else [])"
        by blast
      show ?thesis using t cl
        by (intro exI[of _ "join_nl chunk # texts"]) (auto split: sum.splits)
    qed
  qed
qed

lemma send_chunks_posts:
  assumes "send_chunks w lines tr = (tr', res)"
  shows "\<exists>texts. tr' = tr @ map Post texts \<and> prefix texts (chunk_texts lines)
           \<and> (res = Inr () \<longrightarrow> texts = chunk_texts lines)"
proof -
  obtain tr1 r1 where sl: "send_loop w lines [] 0 tr = (tr1, r1)"
    by (cases "send_loop w lines [] 0 tr")
  from send_loop_posts[OF sl] obtain texts where t: "tr1 = tr @ map Post texts"
    "case r1 of
        Inl e \<Rightarrow> prefix texts (chunks_loop lines [] [] 0)
      | Inr (chunk', buf') \<Rightarrow>
          chunks_loop lines [] [] 0 = texts @ (if chunk' \<noteq> [] then [join_nl chunk'] else [])"
    by blast
  show ?thesis
  proof (cases r1)
    case (Inl e)
    with assms sl t show ?thesis
      by (intro exI[of _ texts]) (auto simp: send_chunks_def chunk_texts_def)
  next
    case (Inr pr)
    obtain chunk' buf' where pr: "pr = (chunk', buf')" by (cases pr)
    show ?thesis
    proof (cases "chunk' = []")
      case True
      with assms sl t Inr pr show ?thesis
        by (intro exI[of _ texts]) (auto simp: send_chunks_def chunk_texts_def)
    next
      case False
      show ?thesis
      proof (cases rule: send_cases[of w "join_nl chunk'"])
        case config
        with assms sl t Inr pr False show ?thesis
          by (intro exI[of _ texts]) (auto simp: send_chunks_def chunk_texts_def)
      next
        case ok
        with assms sl t Inr pr False show ?thesis
          by (intro exI[of _ "texts @ [join_nl chunk']"]) (auto simp: send_chunks_def chunk_texts_def)
      next
        case fail
        with assms sl t Inr pr False show ?thesis
          by (intro exI[of _ "texts @ [join_nl chunk']"]) (auto simp: send_chunks_def chunk_texts_def)
      qed
    qed
  qed
qed

lemma send_loop_config:
  assumes "falsy (BOT_TOKEN w) \<or> falsy (CHAT_ID w)"
  shows "send_loop w lines chunk buf tr = (tr, Inl RuntimeError)
         \<or> (\<exists>chunk' buf'. send_loop w lines chunk buf tr = (tr, Inr (chunk', buf'))
               \<and> (lines \<noteq> [] \<or> chunk \<noteq> [] \<longrightarrow> chunk' \<noteq> []))"
proof (induction lines arbitrary: chunk buf)
  case Nil
  then show ?case by simp
next
  case (Cons line rest)
  show ?case
  proof (cases "3500 < buf + length line + 1")
    case True
    then show ?thesis using assms by (simp add: send_def)
  next
    case False
    then show ?thesis using Cons[of "chunk @ [line]" "buf + length line + 1"] by auto
  qed
qed

lemma send_chunks_config:
  assumes "falsy (BOT_TOKEN w) \<or> falsy (CHAT_ID w)" and "lines \<noteq> []"
  shows "send_chunks w lines tr = (tr, Inl RuntimeError)"
  using send_loop_config[OF assms(1), of lines "[]" 0 tr] assms
  by (auto simp: send_chunks_def send_def)

subsection \<open>The digest lines\<close>

lemma lines_loop_extends: "\<exists>more. lines_loop w its last_cat lines = lines @ more"
proof (induction its arbitrary: last_cat lines)
  case Nil
  then show ?case by simp
next
  case (Cons it rest)
  show ?case
    using Cons[of "Some (item_category it)" "lines @ [category_line (item_category it)] @ [item_block w it]"]
      Cons[of last_cat "lines @ [item_block w it]"]
    by auto
qed

lemma digest_lines_nonempty: "digest_lines w now its \<noteq> []"
  using lines_loop_extends[of w its None "[header w now, []]"] by (auto simp: digest_lines_def)

lemma lines_loop_members:
  "line \<in> set (lines_loop w its last_cat lines) \<Longrightarrow>
   line \<in> set lines \<or> (\<exists>it \<in> set its. line = category_line (item_category it) \<or> line = item_block w it)"
proof (induction its arbitrary: last_cat lines)
  case Nil
  then show ?case by simp
next
  case (Cons it rest)
  show ?case
  proof (cases "Some (item_category it) \<noteq> last_cat")
    case True
    with Cons.prems Cons.IH[of "Some (item_category it)"
        "lines @ [category_line (item_category it)] @ [item_block w it]"]
    show ?thesis by auto
  next
    case False
    with Cons.prems Cons.IH[of last_cat "lines @ [item_block w it]"]
    show ?thesis by auto
  qed
qed

subsection \<open>The run\<close>

lemma main_cases:
  obtains
    (raise) tr e where "collect w now = (tr, Inl e)" "main w now = (tr, Inl e)"
  | (no_news) tr all_items where "collect w now = (tr, Inr all_items)"
      "new_items w all_items = []"
      "main w now = (tr @ fst (send w (no_new_message w now)), snd (send w (no_new_message w now)))"
  | (failed) tr all_items tr1 e where "collect w now = (tr, Inr all_items)"
      "new_items w all_items \<noteq> []"
      "send_chunks w (digest_lines w now (sorted_new w all_items)) tr = (tr1, Inl e)"
      "main w now = (tr1, Inl e)"
  | (sent) tr all_items tr1 where "collect w now = (tr, Inr all_items)"
      "new_items w all_items \<noteq> []"
      "send_chunks w (digest_lines w now (sorted_new w all_items)) tr = (tr1, Inr ())"
      "main w now = (tr1 @ save_cache w (fold (\<lambda>it s. set_add (JStr (item_link it)) s)
                                          (sorted_new w all_items) (load_cache w)), Inr ())"
proof -
  obtain tr r where c: "collect w now = (tr, r)" by (cases "collect w now")
  show ?thesis
  proof (cases r)
    case (Inl e)
    then show ?thesis using raise[of tr e] c by (simp add: main_def)
  next
    case (Inr all_items)
    show ?thesis
    proof (cases "new_items w all_items = []")
      case True
      then show ?thesis using no_news[of tr all_items] c Inr
        by (simp add: main_def Let_def case_prod_beta)
    next
      case False
      obtain tr1 r1 where
        sc: "send_chunks w (digest_lines w now (sorted_new w all_items)) tr = (tr1, r1)"
        by (cases "send_chunks w (digest_lines w now (sorted_new w all_items)) tr")
      show ?thesis
      proof (cases r1)
        case (Inl e)
        then show ?thesis using failed[of tr all_items tr1 e] c Inr False sc
          by (simp add: main_def Let_def)
      next
        case r: (Inr u)
        then show ?thesis using sent[of tr all_items tr1] c Inr False sc
          by (simp add: main_def Let_def)
      qed
    qed
  qed
qed

lemma collect_quiet: "collect w now = (tr, res) \<Longrightarrow> posts tr = [] \<and> cache_writes tr = []"
  using wanted_loop_quiet[of w DETAIL_PATTERN_NOW _ now wanted "[]" "[]" tr res] by simp

lemma collect_fail:
  "collect w now = (tr, res) \<Longrightarrow> listed_ok w tr \<or> (failed_at w tr \<and> res = Inl RequestException)"
  using wanted_loop_fail[of w DETAIL_PATTERN_NOW _ now wanted "[]" "[]" tr res] by simp

lemma list_pages_send [simp]: "list_pages (fst (send w t)) = []"
  by (simp add: send_def)

lemma cache_writes_send [simp]: "cache_writes (fst (send w t)) = []"
  by (simp add: send_def)

lemma list_pages_save_cache [simp]: "list_pages (save_cache w s) = []"
  by (simp add: save_cache_def)

lemma posts_save_cache [simp]: "posts (save_cache w s) = []"
  by (simp add: save_cache_def)

lemma main_list_pages: "list_pages (fst (main w now)) = list_pages (fst (collect w now))"
proof (cases rule: main_cases[of w now])
  case (raise tr e)
  then show ?thesis by simp
next
  case (no_news tr all_items)
  then show ?thesis by simp
next
  case (failed tr all_items tr1 e)
  from send_chunks_posts[OF failed(3)] failed show ?thesis by auto
next
  case (sent tr all_items tr1)
  from send_chunks_posts[OF sent(3)] sent show ?thesis by auto
qed

lemma listed_ok_mem:
  "listed_ok w tr \<Longrightarrow> (c, p) \<in> set (list_pages tr) \<Longrightarrow> list_response w c p \<noteq> None"
  by (auto simp: listed_ok_def list_all_iff)

lemma failed_at_unique:
  assumes "failed_at w tr" "(c, p) \<in> set (list_pages tr)" "list_response w c p = None"
  shows "tr \<noteq> [] \<and> last tr = GetList c p"
proof -
  from assms(1) obtain pre c' p' where t: "tr = pre @ [GetList c' p']"
    "list_response w c' p' = None" "listed_ok w pre"
    by (auto simp: failed_at_iff)
  have "(c, p) \<notin> set (list_pages pre)"
    using listed_ok_mem[OF t(3)] assms(3) by blast
  with assms(2) t(1) show ?thesis by auto
qed

subsection \<open>The dedup store\<close>

lemma set_add_keys: "py_key ` set (set_add x s) = insert (py_key x) (py_key ` set s)"
  by (auto simp: set_add_def set_contains_def)

lemma set_add_distinct: "distinct (map py_key s) \<Longrightarrow> distinct (map py_key (set_add x s))"
  by (auto simp: set_add_def set_contains_def)

lemma set_of_list_Inr:
  "set_of_list xs s = Inr s' \<Longrightarrow>
   py_key ` set s' = py_key ` set s \<union> py_key ` set xs
   \<and> (distinct (map py_key s) \<longrightarrow> distinct (map py_key s'))"
proof (induction xs arbitrary: s)
  case Nil
  then show ?case by simp
next
  case (Cons x xs)
  then have "set_of_list xs (set_add x s) = Inr s'" by (simp split: if_splits)
  from Cons.IH[OF this] show ?case
    by (auto simp: set_add_keys set_add_distinct)
qed

lemma set_of_list_hashable:
  "list_all hashable xs \<Longrightarrow> \<exists>s'. set_of_list xs s = Inr s'"
  by (induction xs arbitrary: s) auto

lemma py_set_distinct: "py_set v = Inr s \<Longrightarrow> distinct (map py_key s)"
  by (cases v) (auto simp: py_set_def dest: set_of_list_Inr)

lemma load_cache_distinct: "distinct (map py_key (load_cache w))"
  by (auto simp: load_cache_def load_cache_try_def dest: py_set_distinct split: sum.splits)

lemma save_cache_links_length: "length (save_cache_links w s) \<le> MAX_CACHE"
  by (auto simp: save_cache_links_def Let_def)

lemma save_cache_links_suffix: "suffix (save_cache_links w s) (set_iter w s)"
  by (auto simp: save_cache_links_def Let_def suffix_drop)

subsection \<open>The listing parser\<close>

lemma third_from_last: "4 \<le> length tds \<Longrightarrow> rev tds ! 2 = tds ! (length tds - 3)"
  using rev_nth[of 2 tds] by (simp add: eval_nat_numeral)

lemma second_from_last: "4 \<le> length tds \<Longrightarrow> rev tds ! Suc 0 = tds ! (length tds - 2)"
  using rev_nth[of 1 tds] by (simp add: eval_nat_numeral)

lemma anchors_loop_map:
  "anchors_loop w as rows = rows @ List.map_filter (row_of w) as"
proof (induction as arbitrary: rows)
  case Nil
  then show ?case by (simp add: List.map_filter_simps)
next
  case (Cons a as)
  then show ?case
    by (auto simp: Let_def row_of_def third_from_last second_from_last List.map_filter_simps
        split: option.splits)
qed

subsection \<open>The example runs, evaluated\<close>

lemmas example_defs = base_world_def world_a_def page_a_def page_b_def page_c_def
  listing_anchor_def cells_def href_no_def link_no_def now_a_def item_no_def BASE_def
  REG_LABEL_def clock_table_def detail_page_def
  DETAIL_PATTERN_NOW_def ascii_def CAT_HOUSING_def CAT_LAND_def CAT_GENERAL_def

lemmas eval_defs = fetch_recent_for_section_def upto.simps pages_loop.simps rows_loop.simps
  wanted_loop.simps wanted_def CATEGORY_TO_SECTION_def parse_list_rows_def select_href_def
  example_defs sublist_code Let_def parse_detail_datetime_kst_def extract_summary_def
  candidates_def slice_to_def timedelta_def date_of_def trace_a_def item1_def item4_def
  item7_def world_b_def world_c_def world_d_def world_e_def

lemmas store_defs = load_cache_def load_cache_try_def dict_get_def py_set_def set_add_def
  set_contains_def py_key_def hashable_def

lemmas digest_defs = send_chunks_def digest_lines_def header_def category_line_def
  item_block_def HEADER_PREFIX_def send_def falsy_def save_cache_def save_cache_links_def
  MAX_CACHE_def

lemma fetch_a:
  "fetch_recent_for_section world_a DETAIL_PATTERN_NOW (ascii ''p_sec_2'') CAT_HOUSING
     (now_a - timedelta 0 24) now_a 3 = (trace_a, Inr [item1, item4])"
  by (simp add: eval_defs)

lemma fetch_e:
  "fst (fetch_recent_for_section world_e DETAIL_PATTERN_NOW (ascii ''p_sec_2'') CAT_HOUSING
     (now_a - timedelta 0 24) now_a 3) =
   [GetList (ascii ''p_sec_2'') 1, GetDetail (link_no ''7''),
    GetList (ascii ''p_sec_2'') 2, GetDetail (link_no ''7''),
    GetList (ascii ''p_sec_2'') 3, GetDetail (link_no ''7'')]"
  by (simp add: eval_defs)

lemma select_page_a: "length (select_href DETAIL_PATTERN_NOW page_a) = 6"
  by (simp add: select_href_def example_defs sublist_code)

lemma parse_page_a_old:
  "parse_list_rows world_a DETAIL_PATTERN_OLD page_a
     = parse_list_rows world_a DETAIL_PATTERN_NOW page_a"
  by (simp add: parse_list_rows_def select_href_def example_defs DETAIL_PATTERN_OLD_def
      sublist_code)

lemma parse_page_a:
  "parse_list_rows world_a DETAIL_PATTERN_NOW page_a =
     [\<lparr>row_title = ascii ''1'', row_link = link_no ''1'', row_category = ascii ''cat'',
       row_date_str = ascii ''2025-08-12''\<rparr>,
      \<lparr>row_title = ascii ''2'', row_link = link_no ''2'', row_category = ascii ''cat'',
       row_date_str = ascii ''2025-08-12''\<rparr>,
      \<lparr>row_title = ascii ''3'', row_link = link_no ''3'', row_category = ascii ''cat'',
       row_date_str = ascii ''2025-08-10''\<rparr>,
      \<lparr>row_title = ascii ''4'', row_link = link_no ''4'', row_category = [], row_date_str = []\<rparr>,
      \<lparr>row_title = ascii ''5'', row_link = link_no ''5'', row_category = ascii ''cat'',
       row_date_str = ascii ''2025-08-11''\<rparr>]"
  by (simp add: parse_list_rows_def select_href_def example_defs sublist_code)

lemma collect_b:
  "collect world_b now_a = (trace_a @ [GetList (ascii ''p_sec_9'') 1], Inl RequestException)"
  by (simp add: eval_defs)

lemma collect_c:
  "collect world_c now_a =
     (trace_a @ [GetList (ascii ''p_sec_9'') 1, GetList (ascii ''p_sec_1'') 1,
                 GetDetail (link_no ''7''), GetList (ascii ''p_sec_1'') 2],
      Inr [item1, item4, item7])"
  by (simp add: eval_defs)

lemma collect_d:
  "collect world_d now_a =
     (trace_a @ [GetList (ascii ''p_sec_9'') 1, GetList (ascii ''p_sec_1'') 1,
                 GetDetail (link_no ''7''), GetList (ascii ''p_sec_1'') 2],
      Inr [item1, item4, item7])"
  by (simp add: eval_defs)

lemma fetch_b_general:
  "fetch_recent_for_section world_b DETAIL_PATTERN_NOW (ascii ''p_sec_1'') CAT_GENERAL
     (now_a - timedelta 0 24) now_a 3 =
   ([GetList (ascii ''p_sec_1'') 1, GetDetail (link_no ''7''), GetList (ascii ''p_sec_1'') 2],
    Inr [item7])"
  by (simp add: eval_defs)

lemma main_b:
  "main world_b now_a = (trace_a @ [GetList (ascii ''p_sec_9'') 1], Inl RequestException)"
  unfolding main_def Let_def collect_b by simp

lemma main_c:
  "main world_c now_a =
     (trace_a @ [GetList (ascii ''p_sec_9'') 1, GetList (ascii ''p_sec_1'') 1,
                 GetDetail (link_no ''7''), GetList (ascii ''p_sec_1'') 2],
      Inl RuntimeError)"
  unfolding main_def Let_def collect_c
  by (simp add: store_defs eval_defs digest_defs)

lemma new_d: "new_items world_d [item1, item4, item7] = [item4, item7]"
  by (simp add: store_defs eval_defs)

lemma sorted_d: "sorted_new world_d [item1, item4, item7] = [item7, item4]"
  unfolding new_d by (simp add: eval_defs)

lemma main_d:
  "main world_d now_a =
     (trace_a @ [GetList (ascii ''p_sec_9'') 1, GetList (ascii ''p_sec_1'') 1,
                 GetDetail (link_no ''7''), GetList (ascii ''p_sec_1'') 2,
                 Post (join_nl (digest_lines world_d now_a [item7, item4])),
                 WriteCache [JStr (link_no ''1''), JStr (link_no ''7''), JStr (link_no ''4'')]],
      Inr ())"
  unfolding main_def Let_def collect_d
  by (simp add: store_defs eval_defs digest_defs)

lemma numbered_link_inj: "numbered_link m = numbered_link n \<Longrightarrow> m = n"
  by (simp add: numbered_link_def)

lemma save_cache_rev:
  "save_cache_links world_rev (map numbered_link [0..<301]) = rev (map numbered_link [0..<300])"
proof -
  have "drop (Suc 0) (rev (map numbered_link [0..<301])) = rev (map numbered_link [0..<300])"
    by (simp add: drop_rev take_map)
  then show ?thesis
    by (simp add: save_cache_links_def world_rev_def base_world_def MAX_CACHE_def)
qed

lemma chunk_texts_x:
  "chunk_texts lines_x =
     [join_nl [replicate 1000 97, replicate 1000 98], join_nl [replicate 2000 99],
      join_nl [replicate 4000 100], join_nl [replicate 10 101]]"
  by (simp add: chunk_texts_def lines_x_def)

lemma send_chunks_x: "snd (send_chunks base_world lines_x []) = Inr ()"
  by (simp add: send_chunks_def lines_x_def send_def falsy_def base_world_def ascii_def)

section \<open>The claims\<close>

text \<open>
  C1. Every item that \<open>fetch_recent_for_section\<close> returns, and so every item that \<open>main\<close>
  collects for the digest, has a resolved timestamp \<open>dt\<close> with \<open>since \<le> dt \<le> now\<close>, both
  bounds included, where \<open>main\<close> passes \<open>since = now - 24h\<close>. A row that passes the
  coarse-date test and whose detail page resolves to \<open>dt\<close> is appended exactly when \<open>dt\<close>
  lies in that closed interval, whatever its coarse date says.
\<close>

theorem items_within_window:
  "(\<forall>tr items. fetch_recent_for_section w pat code name since_kst now_kst max_pages = (tr, Inr items)
      \<longrightarrow> (\<forall>it \<in> set items. since_kst \<le> item_dt it \<and> item_dt it \<le> now_kst))
   \<and> (\<forall>tr all_items. collect w now_kst = (tr, Inr all_items)
      \<longrightarrow> (\<forall>it \<in> set all_items. now_kst - timedelta 0 24 \<le> item_dt it \<and> item_dt it \<le> now_kst))
   \<and> (\<forall>r rest items stop tr detail dt.
        \<not> row_too_old w now_kst r \<longrightarrow> detail_response w (row_link r) = Some detail
        \<longrightarrow> parse_detail_datetime_kst w detail = Inr (Some dt)
        \<longrightarrow> rows_loop w name since_kst now_kst (r # rest) items stop tr
            = rows_loop w name since_kst now_kst rest
                (if since_kst \<le> dt \<and> dt \<le> now_kst
                 then items @ [\<lparr>item_dt = dt, item_title = row_title r, item_link = row_link r,
                                 item_category = name,
                                 item_summary = extract_summary w detail (SUMMARY_CHARS w)\<rparr>]
                 else items)
                stop (tr @ [GetDetail (row_link r)]))"
proof (intro conjI allI impI)
  fix tr items
  assume "fetch_recent_for_section w pat code name since_kst now_kst max_pages = (tr, Inr items)"
  from fetch_window[OF this]
  show "\<forall>it \<in> set items. since_kst \<le> item_dt it \<and> item_dt it \<le> now_kst"
    by (simp add: list_all_iff)
next
  fix tr all_items
  assume "collect w now_kst = (tr, Inr all_items)"
  from wanted_loop_window[OF this]
  show "\<forall>it \<in> set all_items. now_kst - timedelta 0 24 \<le> item_dt it \<and> item_dt it \<le> now_kst"
    by (simp add: list_all_iff)
next
  fix r rest items stop tr detail dt
  assume "\<not> row_too_old w now_kst r" "detail_response w (row_link r) = Some detail"
    "parse_detail_datetime_kst w detail = Inr (Some dt)"
  then show "rows_loop w name since_kst now_kst (r # rest) items stop tr
            = rows_loop w name since_kst now_kst rest
                (if since_kst \<le> dt \<and> dt \<le> now_kst
                 then items @ [\<lparr>item_dt = dt, item_title = row_title r, item_link = row_link r,
                                 item_category = name,
                                 item_summary = extract_summary w detail (SUMMARY_CHARS w)\<rparr>]
                 else items)
                stop (tr @ [GetDetail (row_link r)])"
    by (simp add: rows_loop_fresh row_items_def)
qed

text \<open>
  On the example site the first category yields release 1 (11:00 today) and release 4,
  registered at \<open>since\<close> to the minute; release 2 (16:00 today, after \<open>now\<close>) and release 5
  (14:59 yesterday) are fetched and left out.
\<close>

theorem items_within_window_witness:
  "fetch_recent_for_section world_a DETAIL_PATTERN_NOW (ascii ''p_sec_2'') CAT_HOUSING
     (now_a - timedelta 0 24) now_a 3 = (trace_a, Inr [item1, item4])
   \<and> now_a - timedelta 0 24 \<le> item_dt item1 \<and> item_dt item1 \<le> now_a
   \<and> item_dt item4 = now_a - timedelta 0 24 \<and> item_dt item4 \<le> now_a"
proof -
  from items_within_window[of world_a DETAIL_PATTERN_NOW "ascii ''p_sec_2''" CAT_HOUSING
      "now_a - timedelta 0 24" now_a 3] fetch_a
  have "\<forall>it \<in> set [item1, item4]. now_a - timedelta 0 24 \<le> item_dt it \<and> item_dt it \<le> now_a"
    by blast
  moreover have "item_dt item4 = now_a - timedelta 0 24"
    by (simp add: item4_def item_no_def now_a_def timedelta_def)
  ultimately show ?thesis using fetch_a by simp
qed

text \<open>
  C2. The listing pages that \<open>fetch_recent_for_section\<close> requests for a category are the
  pages \<open>1..k\<close> in order, with \<open>k\<close> at most \<open>max_pages\<close> (3 in \<open>main\<close>), and every page
  before the last one requested had rows and no row with a coarse date strictly earlier
  than the date of \<open>now - 1 day\<close>: after an empty page or a page with such a row no further
  page is requested. Within a page the signal drops nothing: the loop requests the detail
  page of every row that is not itself too old, before or after the row that raised the
  signal, keeps the items it already had and appends what those rows contribute.
\<close>

theorem paging_stops_after_signal:
  assumes "fetch_recent_for_section w pat code name since_kst now_kst max_pages = (tr, res)"
  shows "(\<exists>k. 0 \<le> k \<and> k \<le> max 0 max_pages \<and> list_pages tr = map (Pair code) [1..k]
            \<and> (\<forall>p \<in> {1..<k}. page_continues w pat code now_kst p))
         \<and> length (list_pages tr) \<le> nat max_pages
         \<and> (\<forall>rows items stop t t' items' stop'.
               rows_loop w name since_kst now_kst rows items stop t = (t', Inr (items', stop'))
               \<longrightarrow> t' = t @ map (\<lambda>r. GetDetail (row_link r))
                               (filter (\<lambda>r. \<not> row_too_old w now_kst r) rows)
                 \<and> items' = items @ concat (map (\<lambda>r. case row_items w name since_kst now_kst r of
                                                       Inl e \<Rightarrow> [] | Inr new \<Rightarrow> new)
                                              (filter (\<lambda>r. \<not> row_too_old w now_kst r) rows))
                 \<and> stop' = (stop \<or> list_ex (row_too_old w now_kst) rows))"
proof -
  from pages_loop_pages[OF assms[unfolded fetch_recent_for_section_def]]
  obtain k where k: "k \<le> length [1..max_pages]"
    "list_pages tr = map (Pair code) (take k [1..max_pages])"
    "list_all (page_continues w pat code now_kst) (butlast (take k [1..max_pages]))"
    by auto
  have t: "take k [1..max_pages] = [1..int k]" using k(1) by (rule take_upto)
  have "\<forall>p \<in> {1..<int k}. page_continues w pat code now_kst p"
    using k(3) unfolding t by (simp add: butlast_upto list_all_iff)
  moreover have "int k \<le> max 0 max_pages" using k(1) by simp
  ultimately have "\<exists>k. 0 \<le> k \<and> k \<le> max 0 max_pages \<and> list_pages tr = map (Pair code) [1..k]
            \<and> (\<forall>p \<in> {1..<k}. page_continues w pat code now_kst p)"
    using k(2) t by (intro exI[of _ "int k"]) auto
  moreover have "length (list_pages tr) \<le> nat max_pages"
    using k(1,2) by simp
  ultimately show ?thesis using rows_loop_result by blast
qed

text \<open>
  On the example site page 1 of the first category holds release 3, dated two days
  back: releases 4 and 5 after it are still fetched, page 2 (which has a row) is not. On a
  site whose every page holds one fresh row, pages 1, 2 and 3 are requested and no more.
\<close>

theorem paging_stops_after_signal_witness:
  "fetch_recent_for_section world_a DETAIL_PATTERN_NOW (ascii ''p_sec_2'') CAT_HOUSING
     (now_a - timedelta 0 24) now_a 3 = (trace_a, Inr [item1, item4])
   \<and> list_pages trace_a = [(ascii ''p_sec_2'', 1)]
   \<and> \<not> page_continues world_a DETAIL_PATTERN_NOW (ascii ''p_sec_2'') now_a 1
   \<and> page_rows world_a DETAIL_PATTERN_NOW (ascii ''p_sec_2'') 2 \<noteq> []
   \<and> list_pages (fst (fetch_recent_for_section world_e DETAIL_PATTERN_NOW (ascii ''p_sec_2'')
        CAT_HOUSING (now_a - timedelta 0 24) now_a 3))
       = [(ascii ''p_sec_2'', 1), (ascii ''p_sec_2'', 2), (ascii ''p_sec_2'', 3)]"
proof -
  from paging_stops_after_signal[OF fetch_a] obtain k where k: "0 \<le> k"
    "list_pages trace_a = map (Pair (ascii ''p_sec_2'')) [1..k]"
    by blast
  have lp: "list_pages trace_a = [(ascii ''p_sec_2'', 1)]" by (simp add: trace_a_def)
  have old: "\<not> page_continues world_a DETAIL_PATTERN_NOW (ascii ''p_sec_2'') now_a 1"
    by (simp add: page_continues_def page_rows_def row_too_old_def eval_defs)
  have p2: "page_rows world_a DETAIL_PATTERN_NOW (ascii ''p_sec_2'') 2 \<noteq> []"
    by (simp add: page_rows_def eval_defs)
  show ?thesis using fetch_a lp old p2 fetch_e k by simp
qed

text \<open>
  C3. \<open>save_cache\<close> writes at most \<open>MAX_CACHE\<close> links, and the links it writes are the last
  \<open>MAX_CACHE\<close> of the set in its iteration order, which is not the insertion order. For
  301 links added one after the other to a set that iterates in reverse, the link added
  first is kept and the link added last is the one dropped.
\<close>

theorem save_cache_evicts_by_iteration_order:
  "length (save_cache_links w links_set) \<le> MAX_CACHE
   \<and> suffix (save_cache_links w links_set) (set_iter w links_set)
   \<and> length (save_cache_links world_rev (map numbered_link [0..<301])) = MAX_CACHE
   \<and> numbered_link 0 \<in> set (save_cache_links world_rev (map numbered_link [0..<301]))
   \<and> numbered_link 300 \<notin> set (save_cache_links world_rev (map numbered_link [0..<301]))"
  using save_cache_links_length[of w links_set] save_cache_links_suffix[of w links_set]
  unfolding save_cache_rev by (auto simp: MAX_CACHE_def dest!: numbered_link_inj)

text \<open>
  C4. A listing request that fails is caught nowhere: the exception leaves
  \<open>fetch_recent_for_section\<close> and \<open>main\<close>. The failed request is the last event of the run,
  so no later page and no later category is fetched, nothing is posted and the cache is
  not written.
\<close>

theorem listing_failure_aborts_run:
  assumes "(c, p) \<in> set (list_pages (fst (main w now_kst)))"
    and "list_response w c p = None"
  shows "snd (main w now_kst) = Inl RequestException
         \<and> fst (main w now_kst) \<noteq> [] \<and> last (fst (main w now_kst)) = GetList c p
         \<and> posts (fst (main w now_kst)) = [] \<and> cache_writes (fst (main w now_kst)) = []"
proof -
  obtain tr res where c: "collect w now_kst = (tr, res)" by (cases "collect w now_kst")
  have in_tr: "(c, p) \<in> set (list_pages tr)"
    using assms(1) c by (simp add: main_list_pages)
  then have "\<not> listed_ok w tr"
    using assms(2) listed_ok_mem by blast
  with collect_fail[OF c] have f: "failed_at w tr" "res = Inl RequestException" by auto
  have m: "main w now_kst = (tr, Inl RequestException)"
    using c f(2) by (simp add: main_def)
  show ?thesis
    using m failed_at_unique[OF f(1) in_tr assms(2)] collect_quiet[OF c] by simp
qed

text \<open>
  On the example site with the listing of the second category failing, the run ends at
  that request with the exception, and the two items of the first category are posted
  nowhere.
\<close>

theorem listing_failure_aborts_run_witness:
  "(ascii ''p_sec_9'', 1) \<in> set (list_pages (fst (main world_b now_a)))
   \<and> list_response world_b (ascii ''p_sec_9'') 1 = None
   \<and> snd (main world_b now_a) = Inl RequestException
   \<and> last (fst (main world_b now_a)) = GetList (ascii ''p_sec_9'') 1
   \<and> posts (fst (main world_b now_a)) = []"
proof -
  have a: "(ascii ''p_sec_9'', 1) \<in> set (list_pages (fst (main world_b now_a)))"
    by (simp add: main_b trace_a_def)
  have b: "list_response world_b (ascii ''p_sec_9'') 1 = None"
    by (simp add: world_b_def)
  from listing_failure_aborts_run[OF a b] a b show ?thesis by simp
qed

text \<open>
  The claim as the specification words it fails there: the run does not continue, and
  the third category, whose listing would have given release 7, is never requested.
\<close>

theorem listing_failure_counterexample:
  "main world_b now_a
     = ([GetList (ascii ''p_sec_2'') 1, GetDetail (link_no ''1''), GetDetail (link_no ''2''),
         GetDetail (link_no ''4''), GetDetail (link_no ''5''), GetList (ascii ''p_sec_9'') 1],
        Inl RequestException)
   \<and> list_response world_b (ascii ''p_sec_9'') 1 = None
   \<and> (ascii ''p_sec_1'', 1) \<notin> set (list_pages (fst (main world_b now_a)))
   \<and> snd (fetch_recent_for_section world_b DETAIL_PATTERN_NOW (ascii ''p_sec_1'') CAT_GENERAL
            (now_a - timedelta 0 24) now_a 3) = Inr [item7]"
proof -
  have "list_response world_b (ascii ''p_sec_9'') 1 = None"
    by (simp add: world_b_def)
  moreover have "(ascii ''p_sec_1'', 1) \<notin> set (list_pages (fst (main world_b now_a)))"
    by (simp add: main_b trace_a_def ascii_def)
  ultimately show ?thesis by (simp add: main_b trace_a_def fetch_b_general)
qed

text \<open>
  C5. With \<open>BOT_TOKEN\<close> or \<open>CHAT_ID\<close> unset or empty, the run makes exactly the requests of
  the collecting phase, posts nothing and writes no cache; it ends with the exception of
  that phase if there is one, and otherwise with the \<open>RuntimeError\<close> of the first call of
  \<open>send\<close>, that is, after every listing and detail page has been fetched.
\<close>

theorem missing_credentials:
  assumes "falsy (BOT_TOKEN w) \<or> falsy (CHAT_ID w)"
  shows "fst (main w now_kst) = fst (collect w now_kst)
         \<and> posts (fst (main w now_kst)) = [] \<and> cache_writes (fst (main w now_kst)) = []
         \<and> (case snd (collect w now_kst) of
              Inl e \<Rightarrow> snd (main w now_kst) = Inl e
            | Inr all_items \<Rightarrow> snd (main w now_kst) = Inl RuntimeError)"
proof (cases rule: main_cases[of w now_kst])
  case (raise tr e)
  with collect_quiet[OF raise(1)] show ?thesis by simp
next
  case (no_news tr all_items)
  with collect_quiet[OF no_news(1)] assms show ?thesis by (simp add: send_def)
next
  case (failed tr all_items tr1 e)
  with send_chunks_config[OF assms digest_lines_nonempty[of w now_kst "sorted_new w all_items"], of tr]
    collect_quiet[OF failed(1)]
  show ?thesis by simp
next
  case (sent tr all_items tr1)
  with send_chunks_config[OF assms digest_lines_nonempty[of w now_kst "sorted_new w all_items"], of tr]
  show ?thesis by simp
qed

text \<open>On the example site without a token the three items are collected and the run fails.\<close>

theorem missing_credentials_witness:
  "(falsy (BOT_TOKEN world_c) \<or> falsy (CHAT_ID world_c))
   \<and> snd (collect world_c now_a) = Inr [item1, item4, item7]
   \<and> fst (main world_c now_a) = fst (collect world_c now_a)
   \<and> posts (fst (main world_c now_a)) = [] \<and> cache_writes (fst (main world_c now_a)) = []
   \<and> snd (main world_c now_a) = Inl RuntimeError"
proof -
  have f: "falsy (BOT_TOKEN world_c) \<or> falsy (CHAT_ID world_c)"
    by (simp add: world_c_def falsy_def)
  from missing_credentials[OF f, of now_a] f show ?thesis by (simp add: collect_c trace_a_def)
qed

text \<open>
  The claim as the specification words it fails there: nine requests to the site precede
  the error.
\<close>

theorem missing_credentials_counterexample:
  "BOT_TOKEN world_c = None
   \<and> main world_c now_a
     = ([GetList (ascii ''p_sec_2'') 1, GetDetail (link_no ''1''), GetDetail (link_no ''2''),
         GetDetail (link_no ''4''), GetDetail (link_no ''5''), GetList (ascii ''p_sec_9'') 1,
         GetList (ascii ''p_sec_1'') 1, GetDetail (link_no ''7''), GetList (ascii ''p_sec_1'') 2],
        Inl RuntimeError)
   \<and> length (fst (main world_c now_a)) = 9"
proof -
  have "BOT_TOKEN world_c = None"
    by (simp add: world_c_def)
  then show ?thesis by (simp add: main_c trace_a_def)
qed

text \<open>
  C6. The items of the digest are the collected items whose link is not in the set that
  \<open>load_cache\<close> returned. What \<open>main\<close> posts is a prefix of the chunks of the digest lines
  of those items (all of them unless a send raises), the chunks are groups of these lines,
  and each line is the header, the empty line, or the category line or the block of an
  item whose link is not in the loaded set: an item whose link is in the set is in no
  chunk, whatever its timestamp.
\<close>

theorem dedup_excludes_sent:
  assumes "collect w now_kst = (tr, Inr all_items)"
  shows "set (new_items w all_items)
           = {it \<in> set all_items. \<not> set_contains (JStr (item_link it)) (load_cache w)}
         \<and> prefix (posts (fst (main w now_kst)))
             (if new_items w all_items = [] then [no_new_message w now_kst]
              else chunk_texts (digest_lines w now_kst (sorted_new w all_items)))
         \<and> (\<exists>groups. chunk_texts (digest_lines w now_kst (sorted_new w all_items)) = map join_nl groups
               \<and> concat groups = digest_lines w now_kst (sorted_new w all_items))
         \<and> (\<forall>line \<in> set (digest_lines w now_kst (sorted_new w all_items)).
               line = header w now_kst \<or> line = []
               \<or> (\<exists>it \<in> set all_items. \<not> set_contains (JStr (item_link it)) (load_cache w)
                     \<and> (line = category_line (item_category it) \<or> line = item_block w it)))"
proof -
  have a: "set (new_items w all_items)
           = {it \<in> set all_items. \<not> set_contains (JStr (item_link it)) (load_cache w)}"
    by auto
  have q: "posts tr = []" using collect_quiet[OF assms] by simp
  have b: "prefix (posts (fst (main w now_kst)))
             (if new_items w all_items = [] then [no_new_message w now_kst]
              else chunk_texts (digest_lines w now_kst (sorted_new w all_items)))"
  proof (cases rule: main_cases[of w now_kst])
    case (raise tr e)
    with assms show ?thesis by simp
  next
    case (no_news tr' all')
    with assms q show ?thesis by (auto simp: send_def)
  next
    case (failed tr' all' tr1 e)
    with assms send_chunks_posts[OF failed(3)] q show ?thesis by auto
  next
    case (sent tr' all' tr1)
    with assms send_chunks_posts[OF sent(3)] q show ?thesis by auto
  qed
  have c: "\<exists>groups. chunk_texts (digest_lines w now_kst (sorted_new w all_items)) = map join_nl groups
               \<and> concat groups = digest_lines w now_kst (sorted_new w all_items)"
    using chunk_texts_groups[of "digest_lines w now_kst (sorted_new w all_items)"] by auto
  have d: "\<forall>line \<in> set (digest_lines w now_kst (sorted_new w all_items)).
               line = header w now_kst \<or> line = []
               \<or> (\<exists>it \<in> set all_items. \<not> set_contains (JStr (item_link it)) (load_cache w)
                     \<and> (line = category_line (item_category it) \<or> line = item_block w it))"
  proof
    fix line
    assume "line \<in> set (digest_lines w now_kst (sorted_new w all_items))"
    from lines_loop_members[OF this[unfolded digest_lines_def]]
    show "line = header w now_kst \<or> line = []
               \<or> (\<exists>it \<in> set all_items. \<not> set_contains (JStr (item_link it)) (load_cache w)
                     \<and> (line = category_line (item_category it) \<or> line = item_block w it))"
      by auto
  qed
  from a b c d show ?thesis by blast
qed

text \<open>
  On the example site with release 1 in the cache file, releases 7 and 4 are posted in one
  message and release 1 is not.
\<close>

theorem dedup_excludes_sent_witness:
  "collect world_d now_a =
     (trace_a @ [GetList (ascii ''p_sec_9'') 1, GetList (ascii ''p_sec_1'') 1,
                 GetDetail (link_no ''7''), GetList (ascii ''p_sec_1'') 2],
      Inr [item1, item4, item7])
   \<and> set_contains (JStr (item_link item1)) (load_cache world_d)
   \<and> set (new_items world_d [item1, item4, item7]) = {item4, item7}
   \<and> posts (fst (main world_d now_a)) = [join_nl (digest_lines world_d now_a [item7, item4])]
   \<and> prefix (posts (fst (main world_d now_a)))
        (chunk_texts (digest_lines world_d now_a [item7, item4]))"
proof -
  from dedup_excludes_sent[OF collect_d]
  have "prefix (posts (fst (main world_d now_a)))
             (if new_items world_d [item1, item4, item7] = [] then [no_new_message world_d now_a]
              else chunk_texts (digest_lines world_d now_a (sorted_new world_d [item1, item4, item7])))"
    by blast
  then have p: "prefix (posts (fst (main world_d now_a)))
        (chunk_texts (digest_lines world_d now_a [item7, item4]))"
    unfolding sorted_d unfolding new_d by simp
  have s: "set_contains (JStr (item_link item1)) (load_cache world_d)"
    by (simp add: store_defs eval_defs)
  have n: "set (new_items world_d [item1, item4, item7]) = {item4, item7}"
    unfolding new_d by simp
  have m: "posts (fst (main world_d now_a)) = [join_nl (digest_lines world_d now_a [item7, item4])]"
    by (simp add: main_d trace_a_def)
  from collect_d s n m p show ?thesis by blast
qed

text \<open>
  C7. The chunks of the chunking loop are the joins of groups of whole lines that, put
  one after the other, are the lines in order. The text of each chunk has at most 3500
  characters unless the chunk is a single line longer than that, and a line longer than
  3500 characters is alone in its chunk. The loop of \<open>molit_bot_now.py\<close> posts these same
  chunks, in order, up to the first send that raises.
\<close>

theorem chunks_within_budget:
  "(\<exists>groups. chunk_texts lines = map join_nl groups \<and> concat groups = lines
      \<and> (\<forall>g \<in> set groups.
            (length (join_nl g) \<le> 3500 \<or> (\<exists>l. g = [l] \<and> 3500 < length l))
            \<and> (\<forall>l \<in> set g. 3500 < length l \<longrightarrow> g = [l])))
   \<and> (\<forall>tr tr' res. send_chunks w lines tr = (tr', res) \<longrightarrow>
         (\<exists>texts. tr' = tr @ map Post texts \<and> prefix texts (chunk_texts lines)
            \<and> (res = Inr () \<longrightarrow> texts = chunk_texts lines)))"
  using chunk_texts_groups[of lines] send_chunks_posts[of w lines]
  unfolding within_budget_iff list_all_iff by blast

text \<open>
  Two lines of 1000 characters share a chunk, the line of 4000 characters is alone in its
  chunk, and with credentials and a working endpoint all four chunks are posted.
\<close>

theorem chunks_within_budget_witness:
  "chunk_texts lines_x =
     map join_nl [[replicate 1000 97, replicate 1000 98], [replicate 2000 99],
                  [replicate 4000 100], [replicate 10 101]]
   \<and> concat [[replicate 1000 97, replicate 1000 98], [replicate 2000 99],
              [replicate 4000 100], [replicate 10 101]] = lines_x
   \<and> length (join_nl [replicate 1000 97, replicate 1000 98]) \<le> 3500
   \<and> 3500 < length (replicate 4000 (100::nat))
   \<and> send_chunks base_world lines_x [] = (map Post (chunk_texts lines_x), Inr ())"
proof -
  obtain tr' res where sc: "send_chunks base_world lines_x [] = (tr', res)"
    by (cases "send_chunks base_world lines_x []")
  with send_chunks_x have r: "res = Inr ()" by simp
  from chunks_within_budget[of lines_x base_world] sc r
  have "tr' = map Post (chunk_texts lines_x)" by auto
  with sc r show ?thesis by (simp add: chunk_texts_x) (simp add: lines_x_def)
qed

text \<open>
  C8. \<open>load_cache\<close> returns a set and raises nothing: the empty set when the file cannot be
  opened or parsed, when the parsed JSON is not an object, when the object has no
  \<open>links\<close> field, and when \<open>set\<close> raises on the field's content; when the field is a list of
  hashable elements, the set of exactly those elements.
\<close>

theorem load_cache_fail_open:
  "(\<forall>e. cache_read w = Inl e \<longrightarrow> load_cache w = [])
   \<and> (\<forall>data. cache_read w = Inr data \<longrightarrow> (\<forall>kvs. data \<noteq> JObj kvs) \<longrightarrow> load_cache w = [])
   \<and> (\<forall>kvs. cache_read w = Inr (JObj kvs) \<longrightarrow> map_of kvs (ascii ''links'') = None
         \<longrightarrow> load_cache w = [])
   \<and> (\<forall>kvs v e. cache_read w = Inr (JObj kvs) \<longrightarrow> map_of kvs (ascii ''links'') = Some v
         \<longrightarrow> py_set v = Inl e \<longrightarrow> load_cache w = [])
   \<and> (\<forall>kvs xs. cache_read w = Inr (JObj kvs) \<longrightarrow> map_of kvs (ascii ''links'') = Some (JArr xs)
         \<longrightarrow> list_all hashable xs
         \<longrightarrow> (\<forall>x. set_contains x (load_cache w) = (py_key x \<in> py_key ` set xs)))
   \<and> distinct (map py_key (load_cache w))"
proof (intro conjI allI impI)
  fix e assume "cache_read w = Inl e"
  then show "load_cache w = []" by (simp add: load_cache_def load_cache_try_def)
next
  fix data assume "cache_read w = Inr data" "\<forall>kvs. data \<noteq> JObj kvs"
  then show "load_cache w = []"
    by (cases data) (simp_all add: load_cache_def load_cache_try_def dict_get_def)
next
  fix kvs assume "cache_read w = Inr (JObj kvs)" "map_of kvs (ascii ''links'') = None"
  then show "load_cache w = []"
    by (simp add: load_cache_def load_cache_try_def dict_get_def py_set_def)
next
  fix kvs v e
  assume "cache_read w = Inr (JObj kvs)" "map_of kvs (ascii ''links'') = Some v" "py_set v = Inl e"
  then show "load_cache w = []"
    by (simp add: load_cache_def load_cache_try_def dict_get_def)
next
  fix kvs xs x
  assume a: "cache_read w = Inr (JObj kvs)" "map_of kvs (ascii ''links'') = Some (JArr xs)"
    "list_all hashable xs"
  from set_of_list_hashable[OF a(3), of "[]"] obtain s where s: "set_of_list xs [] = Inr s" by auto
  have "load_cache w = s"
    using a s by (simp add: load_cache_def load_cache_try_def dict_get_def py_set_def)
  then show "set_contains x (load_cache w) = (py_key x \<in> py_key ` set xs)"
    using set_of_list_Inr[OF s] by (simp add: set_contains_def)
next
  show "distinct (map py_key (load_cache w))" by (rule load_cache_distinct)
qed

text \<open>
  A missing file, malformed JSON, a top-level list, an object without \<open>links\<close>, a number
  and a nested list for \<open>links\<close> all give the empty set; a list of links gives its links.
\<close>

theorem load_cache_fail_open_witness:
  "load_cache (world_of_cache (Inl OSError)) = []
   \<and> load_cache (world_of_cache (Inl JSONDecodeError)) = []
   \<and> load_cache (world_of_cache (Inr (JArr [JStr (link_no ''1'')]))) = []
   \<and> load_cache (world_of_cache (Inr (JObj [(ascii ''sent'', JArr [JStr (link_no ''1'')])]))) = []
   \<and> load_cache (world_of_cache (Inr (JObj [(ascii ''links'', JInt 7)]))) = []
   \<and> load_cache (world_of_cache (Inr (JObj [(ascii ''links'', JArr [JArr []])]))) = []
   \<and> set_contains (JStr (link_no ''1''))
        (load_cache (world_of_cache (Inr (JObj [(ascii ''links'',
           JArr [JStr (link_no ''1''), JStr (link_no ''2''), JStr (link_no ''1'')])]))))
   \<and> \<not> set_contains (JStr (link_no ''4''))
        (load_cache (world_of_cache (Inr (JObj [(ascii ''links'',
           JArr [JStr (link_no ''1''), JStr (link_no ''2''), JStr (link_no ''1'')])]))))"
proof -
  note t = load_cache_fail_open
  have r: "\<And>x. cache_read (world_of_cache x) = x"
    by (simp add: world_of_cache_def base_world_def)
  have 1: "load_cache (world_of_cache (Inl OSError)) = []"
    using t[of "world_of_cache (Inl OSError)"] r by blast
  have 2: "load_cache (world_of_cache (Inl JSONDecodeError)) = []"
    using t[of "world_of_cache (Inl JSONDecodeError)"] r by blast
  have 3: "load_cache (world_of_cache (Inr (JArr [JStr (link_no ''1'')]))) = []"
    using t[of "world_of_cache (Inr (JArr [JStr (link_no ''1'')]))"] r by blast
  have m4: "map_of [(ascii ''sent'', JArr [JStr (link_no ''1'')])] (ascii ''links'') = None"
    by (simp add: ascii_def)
  have 4: "load_cache (world_of_cache (Inr (JObj [(ascii ''sent'', JArr [JStr (link_no ''1'')])]))) = []"
    using t[of "world_of_cache (Inr (JObj [(ascii ''sent'', JArr [JStr (link_no ''1'')])]))"] r m4
    by blast
  have m5: "map_of [(ascii ''links'', JInt 7)] (ascii ''links'') = Some (JInt 7)"
    "py_set (JInt 7) = Inl TypeError"
    by (simp_all add: py_set_def)
  have 5: "load_cache (world_of_cache (Inr (JObj [(ascii ''links'', JInt 7)]))) = []"
    using t[of "world_of_cache (Inr (JObj [(ascii ''links'', JInt 7)]))"] r m5 by blast
  have m6: "map_of [(ascii ''links'', JArr [JArr []])] (ascii ''links'') = Some (JArr [JArr []])"
    "py_set (JArr [JArr []]) = Inl TypeError"
    by (simp_all add: py_set_def hashable_def)
  have 6: "load_cache (world_of_cache (Inr (JObj [(ascii ''links'', JArr [JArr []])]))) = []"
    using t[of "world_of_cache (Inr (JObj [(ascii ''links'', JArr [JArr []])]))"] r m6 by blast
  let ?xs = "[JStr (link_no ''1''), JStr (link_no ''2''), JStr (link_no ''1'')]"
  have m7: "map_of [(ascii ''links'', JArr ?xs)] (ascii ''links'') = Some (JArr ?xs)"
    "list_all hashable ?xs"
    by (simp_all add: hashable_def)
  have 7: "\<And>x. set_contains x (load_cache (world_of_cache (Inr (JObj [(ascii ''links'', JArr ?xs)]))))
       = (py_key x \<in> py_key ` set ?xs)"
    using t[of "world_of_cache (Inr (JObj [(ascii ''links'', JArr ?xs)]))"] r m7 by blast
  show ?thesis
    unfolding 1 2 3 4 5 6 7 by (simp add: py_key_def link_no_def href_no_def ascii_def)
qed

text \<open>
  C9. \<open>parse_list_rows\<close> returns one row for each detail-page anchor that stands in a
  table row, in document order, and skips an anchor that stands in none. The category
  label and the coarse date of a row are the third-from-last and the second-from-last
  cell when the table row has at least four cells, and empty otherwise.
\<close>

theorem parse_list_rows_rows:
  "parse_list_rows w pat doc = List.map_filter (row_of w) (select_href pat doc)"
  using anchors_loop_map[of w "select_href pat doc" "[]"]
  by (simp add: parse_list_rows_def)

text \<open>
  The example page gives five rows; the fourth, from a table row of one cell, has empty
  metadata. The selector of \<open>molit_bot.py\<close> gives the same rows.
\<close>

theorem parse_list_rows_rows_witness:
  "parse_list_rows world_a DETAIL_PATTERN_NOW page_a
     = List.map_filter (row_of world_a) (select_href DETAIL_PATTERN_NOW page_a)
   \<and> map row_category (parse_list_rows world_a DETAIL_PATTERN_NOW page_a)
       = [ascii ''cat'', ascii ''cat'', ascii ''cat'', [], ascii ''cat'']
   \<and> map row_date_str (parse_list_rows world_a DETAIL_PATTERN_NOW page_a)
       = [ascii ''2025-08-12'', ascii ''2025-08-12'', ascii ''2025-08-10'', [], ascii ''2025-08-11'']
   \<and> parse_list_rows world_a DETAIL_PATTERN_OLD page_a
       = parse_list_rows world_a DETAIL_PATTERN_NOW page_a"
proof (intro conjI)
  show "parse_list_rows world_a DETAIL_PATTERN_OLD page_a
       = parse_list_rows world_a DETAIL_PATTERN_NOW page_a"
    by (rule parse_page_a_old)
  show "parse_list_rows world_a DETAIL_PATTERN_NOW page_a
     = List.map_filter (row_of world_a) (select_href DETAIL_PATTERN_NOW page_a)"
    by (rule parse_list_rows_rows)
  show "map row_category (parse_list_rows world_a DETAIL_PATTERN_NOW page_a)
       = [ascii ''cat'', ascii ''cat'', ascii ''cat'', [], ascii ''cat'']"
    by (simp add: parse_page_a)
  show "map row_date_str (parse_list_rows world_a DETAIL_PATTERN_NOW page_a)
       = [ascii ''2025-08-12'', ascii ''2025-08-12'', ascii ''2025-08-10'', [], ascii ''2025-08-11'']"
    by (simp add: parse_page_a)
qed

text \<open>
  The claim as the specification words it fails there: six anchors match the selector,
  one of them outside any table row, and five rows are returned.
\<close>

theorem parse_list_rows_counterexample:
  "length (select_href DETAIL_PATTERN_NOW page_a) = 6
   \<and> length (parse_list_rows world_a DETAIL_PATTERN_NOW page_a) = 5"
  by (simp add: select_page_a parse_page_a)

text \<open>
  C10. A row whose coarse date does not parse (the empty string does not) passes the
  coarse-date test: the loop requests its detail page and goes on with the stop flag as
  it was, unless \<open>parse_detail_datetime_kst\<close> raises; and when the detail page resolves to a
  timestamp in the closed window, the item is appended.
\<close>

theorem unparsed_date_row:
  assumes "strptime_date w (row_date_str r) = None"
  shows "((\<exists>items'. rows_loop w name since_kst now_kst (r # rest) items stop tr
             = rows_loop w name since_kst now_kst rest items' stop (tr @ [GetDetail (row_link r)]))
          \<or> rows_loop w name since_kst now_kst (r # rest) items stop tr
             = (tr @ [GetDetail (row_link r)], Inl ValueError))
         \<and> (\<forall>detail dt. detail_response w (row_link r) = Some detail
               \<longrightarrow> parse_detail_datetime_kst w detail = Inr (Some dt)
               \<longrightarrow> since_kst \<le> dt \<longrightarrow> dt \<le> now_kst
               \<longrightarrow> rows_loop w name since_kst now_kst (r # rest) items stop tr
                   = rows_loop w name since_kst now_kst rest
                       (items @ [\<lparr>item_dt = dt, item_title = row_title r, item_link = row_link r,
                                  item_category = name,
                                  item_summary = extract_summary w detail (SUMMARY_CHARS w)\<rparr>])
                       stop (tr @ [GetDetail (row_link r)]))"
proof -
  have fresh: "\<not> row_too_old w now_kst r" using assms by (simp add: row_too_old_def)
  have raise: "\<And>e. row_items w name since_kst now_kst r = Inl e \<Longrightarrow> e = ValueError"
    by (auto simp: row_items_def parse_detail_datetime_kst_def split: option.splits sum.splits if_splits)
  show ?thesis
  proof (intro conjI allI impI)
    show "(\<exists>items'. rows_loop w name since_kst now_kst (r # rest) items stop tr
             = rows_loop w name since_kst now_kst rest items' stop (tr @ [GetDetail (row_link r)]))
          \<or> rows_loop w name since_kst now_kst (r # rest) items stop tr
             = (tr @ [GetDetail (row_link r)], Inl ValueError)"
      using raise by (cases "row_items w name since_kst now_kst r") (auto simp: rows_loop_fresh[OF fresh])
  next
    fix detail dt
    assume "detail_response w (row_link r) = Some detail"
      "parse_detail_datetime_kst w detail = Inr (Some dt)" "since_kst \<le> dt" "dt \<le> now_kst"
    then show "rows_loop w name since_kst now_kst (r # rest) items stop tr
                   = rows_loop w name since_kst now_kst rest
                       (items @ [\<lparr>item_dt = dt, item_title = row_title r, item_link = row_link r,
                                  item_category = name,
                                  item_summary = extract_summary w detail (SUMMARY_CHARS w)\<rparr>])
                       stop (tr @ [GetDetail (row_link r)])"
      by (simp add: rows_loop_fresh[OF fresh] row_items_def)
  qed
qed

text \<open>
  Row 4 of the example page has the empty date; its detail page is fetched and the item,
  registered at \<open>since\<close>, is kept.
\<close>

theorem unparsed_date_row_witness:
  "strptime_date world_a (row_date_str row4) = None
   \<and> detail_response world_a (row_link row4) = Some (detail_page ''2025-08-11 15:00'')
   \<and> parse_detail_datetime_kst world_a (detail_page ''2025-08-11 15:00'')
       = Inr (Some (now_a - timedelta 0 24))
   \<and> rows_loop world_a CAT_HOUSING (now_a - timedelta 0 24) now_a [row4] [] False []
       = ([GetDetail (link_no ''4'')], Inr ([item4], False))"
proof -
  have a: "strptime_date world_a (row_date_str row4) = None"
    by (simp add: row4_def example_defs)
  have b: "detail_response world_a (row_link row4) = Some (detail_page ''2025-08-11 15:00'')"
    by (simp add: row4_def example_defs)
  have c: "parse_detail_datetime_kst world_a (detail_page ''2025-08-11 15:00'')
      = Inr (Some (now_a - timedelta 0 24))"
    by (simp add: parse_detail_datetime_kst_def example_defs timedelta_def)
  have d: "extract_summary world_a (detail_page ''2025-08-11 15:00'') (SUMMARY_CHARS world_a)
      = detail_page ''2025-08-11 15:00''"
    by (simp add: eval_defs)
  from unparsed_date_row[OF a, of CAT_HOUSING "now_a - timedelta 0 24" now_a "[]" "[]" False "[]"]
    b c
  have "rows_loop world_a CAT_HOUSING (now_a - timedelta 0 24) now_a [row4] [] False []
     = rows_loop world_a CAT_HOUSING (now_a - timedelta 0 24) now_a []
         ([] @ [\<lparr>item_dt = now_a - timedelta 0 24, item_title = row_title row4,
                 item_link = row_link row4, item_category = CAT_HOUSING,
                 item_summary = extract_summary world_a (detail_page ''2025-08-11 15:00'')
                                  (SUMMARY_CHARS world_a)\<rparr>])
         False ([] @ [GetDetail (row_link row4)])"
    by (simp add: timedelta_def now_a_def)
  then show ?thesis using a b c
    by (simp add: d) (simp add: row4_def item4_def item_no_def now_a_def timedelta_def)
qed

end
